theory Spec2Isabelle
  imports Complex_Main "HOL-Library.Multiset"
begin

section \<open>Adaptive cubature: the model\<close>

text \<open>
  The development follows \<^verbatim>\<open>scipy/integrate/_cubature.py\<close>. Floating-point numbers are
  modelled by \<^typ>\<open>real\<close> (exact arithmetic). A numpy array of shape \<open>(d, m)\<close> is a list of
  \<open>d\<close> rows of length \<open>m\<close>; the array an integrand or a rule returns, of shape
  \<open>(out\<^sub>1, \<dots>, out\<^sub>k)\<close>, is the flat list of its components, and the batch an integrand
  returns, of shape \<open>(out\<^sub>1, \<dots>, out\<^sub>k, m)\<close>, is the list of its rows along the last axis.
  Every \<^verbatim>\<open>raise\<close> of the source is a value \<open>Inl e\<close>. Arrays that are combined
  elementwise have the same shape: numpy's broadcasting between arrays of different
  shapes is not modelled.
\<close>

subsection \<open>Exceptions and arrays\<close>

datatype exn = ValueError string | NotImplementedError | LinAlgError | IndexError

type_synonym nodes_weights = "real list list \<times> real list"

type_synonym integrand = "real list list \<Rightarrow> real list list"

text \<open>\<^verbatim>\<open>np.concat([x, y], axis=-1)\<close> on two-dimensional arrays: the first axes must agree.\<close>

definition np_concat_last :: "real list list \<Rightarrow> real list list \<Rightarrow> exn + real list list" where
  "np_concat_last x y =
     (if length x = length y then Inr (map2 (@) x y)
      else Inl (ValueError ''all the input array dimensions except for the concatenation axis must match exactly''))"

subsection \<open>Applying a fixed rule\<close>

text \<open>
  \<^verbatim>\<open>_apply_rule(f, a, b, rule)\<close>: the dimension check, the change of coordinates from
  \<open>[-1, 1]\<^sup>d\<close> to \<open>[a, b]\<close>, and the weighted sum over the last axis. The extra arguments
  \<^verbatim>\<open>args\<close> and \<^verbatim>\<open>kwargs\<close> are part of the integrand; the error message is the source's
  without the dimensions it reports.
\<close>

definition apply_rule :: "integrand \<Rightarrow> real list \<Rightarrow> real list \<Rightarrow> nodes_weights \<Rightarrow> exn + real list" where
  "apply_rule f a b rule =
     (let (orig_nodes, orig_weights) = rule;
          rule_ndim = length orig_nodes;
          a_ndim = length a;
          b_ndim = length b
      in if rule_ndim \<noteq> a_ndim \<or> rule_ndim \<noteq> b_ndim
         then Inl (ValueError ''cubature rule and function are of incompatible dimension'')
         else
           let lengths = map2 (\<lambda>b_i a_i. b_i - a_i) b a;
               nodes = map (\<lambda>(row, l, a_i). map (\<lambda>x. (x + 1) * (l / 2) + a_i) row)
                         (zip orig_nodes (zip lengths a));
               weight_scale_factor = prod_list (map (\<lambda>l. l / 2) lengths);
               weights = map (\<lambda>w. w * weight_scale_factor) orig_weights
           in Inr (map (\<lambda>vals. sum_list (map2 (*) weights vals)) (f nodes)))"

subsection \<open>The rule classes\<close>

text \<open>
  The interface \<^verbatim>\<open>Cubature\<close> is a pair of methods; the driver is generic in it. The base
  class implements neither.
\<close>

record 'f Cubature =
  estimate :: "'f \<Rightarrow> real list \<Rightarrow> real list \<Rightarrow> exn + real list"
  error_estimate :: "'f \<Rightarrow> real list \<Rightarrow> real list \<Rightarrow> exn + real list"


text \<open>
  \<^verbatim>\<open>FixedCubature\<close> holds the property \<^verbatim>\<open>rule\<close>, the pair (nodes, weights);
  \<^verbatim>\<open>ErrorFromDifference\<close> extends it by the property \<^verbatim>\<open>lower_rule\<close>.
\<close>

record FixedCubature =
  rule :: nodes_weights

record ErrorFromDifference = FixedCubature +
  lower_rule :: nodes_weights

definition FixedCubature_estimate ::
  "'z FixedCubature_scheme \<Rightarrow> integrand \<Rightarrow> real list \<Rightarrow> real list \<Rightarrow> exn + real list" where
  "FixedCubature_estimate self f a b = apply_rule f a b (rule self)"

definition ErrorFromDifference_init :: "FixedCubature \<Rightarrow> FixedCubature \<Rightarrow> ErrorFromDifference" where
  "ErrorFromDifference_init higher lower = \<lparr>rule = rule higher, lower_rule = rule lower\<rparr>"

definition ErrorFromDifference_error_estimate ::
  "ErrorFromDifference \<Rightarrow> integrand \<Rightarrow> real list \<Rightarrow> real list \<Rightarrow> exn + real list" where
  "ErrorFromDifference_error_estimate self f a b =
     (let (nodes, weights) = rule self;
          (lower_nodes, lower_weights) = lower_rule self
      in case np_concat_last nodes lower_nodes of
           Inl e \<Rightarrow> Inl e
         | Inr error_nodes \<Rightarrow>
             let error_weights = weights @ map uminus lower_weights;
                 error_rule = (error_nodes, error_weights)
             in (case apply_rule f a b error_rule of
                   Inl e \<Rightarrow> Inl e
                 | Inr r \<Rightarrow> Inr (map abs r)))"


definition ErrorFromDifference_as_Cubature :: "ErrorFromDifference \<Rightarrow> integrand Cubature" where
  "ErrorFromDifference_as_Cubature self =
     \<lparr>estimate = FixedCubature_estimate self,
      error_estimate = ErrorFromDifference_error_estimate self\<rparr>"

text \<open>
  The nodes of a rule on the region \<open>[a, b]\<close>, entry by entry: the change of coordinates of
  \<^verbatim>\<open>_apply_rule\<close>, used to state what the integrand is evaluated at.
\<close>

definition nodes_on_region :: "real list \<Rightarrow> real list \<Rightarrow> real list list \<Rightarrow> real list list" where
  "nodes_on_region a b orig_nodes =
     map (\<lambda>i. map (\<lambda>x. (x + 1) * ((b ! i - a ! i) / 2) + a ! i) (orig_nodes ! i)) [0..<length orig_nodes]"

subsection \<open>Newton-Cotes rules\<close>

text \<open>
  \<^verbatim>\<open>NewtonCotes.__init__\<close> and the property \<^verbatim>\<open>NewtonCotes.rule\<close>.
  \<^verbatim>\<open>np.linspace(start, stop, num)\<close> is the uniform grid of \<open>num\<close> points from \<open>start\<close> to
  \<open>stop\<close>; \<^verbatim>\<open>np.vander(x, increasing=True)\<close> has the entry \<open>x\<^sub>j\<^sup>i\<close> in row \<open>j\<close>, column \<open>i\<close>.
\<close>

record NewtonCotes =
  npoints :: int
  "open" :: bool

definition NewtonCotes_init :: "int \<Rightarrow> bool \<Rightarrow> exn + NewtonCotes" where
  "NewtonCotes_init npoints' open' =
     (if npoints' < 2 then Inl (ValueError ''at least 2 points required for Newton-Cotes cubature'')
      else Inr \<lparr>npoints = npoints', open = open'\<rparr>)"

definition np_linspace :: "real \<Rightarrow> real \<Rightarrow> int \<Rightarrow> real list" where
  "np_linspace start stop num =
     map (\<lambda>k. start + real k * ((stop - start) / real (nat num - 1))) [0..<nat num]"

definition np_vander :: "real list \<Rightarrow> real list list" where
  "np_vander x = map (\<lambda>x_j. map (\<lambda>i. x_j ^ i) [0..<length x]) x"

definition np_transpose :: "real list list \<Rightarrow> real list list" where
  "np_transpose m =
     (case m of [] \<Rightarrow> [] | r # _ \<Rightarrow> map (\<lambda>i. map (\<lambda>row. row ! i) m) [0..<length r])"

definition mat_vec :: "real list list \<Rightarrow> real list \<Rightarrow> real list" where
  "mat_vec m x = map (\<lambda>row. sum_list (map2 (*) row x)) m"

text \<open>
  \<^verbatim>\<open>np.linalg.solve(a, b)\<close> in exact arithmetic: Gaussian elimination on the equations
  (row, right-hand side), taking as pivot the first equation whose leading coefficient is
  not zero. A matrix that is not square or is singular raises \<^verbatim>\<open>LinAlgError\<close>.
\<close>

fun solve_eqs :: "nat \<Rightarrow> (real list \<times> real) list \<Rightarrow> real list option" where
  "solve_eqs 0 eqs = (if eqs = [] then Some [] else None)"
| "solve_eqs (Suc n) eqs =
     (case find (\<lambda>(r, c). hd r \<noteq> 0) eqs of
        None \<Rightarrow> None
      | Some (p, pc) \<Rightarrow>
          let rest = remove1 (p, pc) eqs;
              reduced = map (\<lambda>(r, c). (map2 (\<lambda>x y. x - hd r / hd p * y) (tl r) (tl p),
                                         c - hd r / hd p * pc)) rest
          in (case solve_eqs n reduced of
                None \<Rightarrow> None
              | Some xs \<Rightarrow> Some ((pc - sum_list (map2 (*) (tl p) xs)) / hd p # xs)))"

definition np_linalg_solve :: "real list list \<Rightarrow> real list \<Rightarrow> exn + real list" where
  "np_linalg_solve a b =
     (if list_all (\<lambda>row. length row = length a) a \<and> length b = length a
      then (case solve_eqs (length a) (zip a b) of
              None \<Rightarrow> Inl LinAlgError
            | Some x \<Rightarrow> Inr x)
      else Inl LinAlgError)"

text \<open>\<^verbatim>\<open>_newton_cotes_weights(points)\<close>: twice the solution of the moment system.\<close>

definition newton_cotes_weights :: "real list \<Rightarrow> exn + real list" where
  "newton_cotes_weights points =
     (let order = int (length points) - 1;
          a = np_transpose (np_vander points);
          i = [0..<nat (order + 1)];
          b = map (\<lambda>i. (1 - (- 1) ^ (i + 1)) / (2 * (real i + 1))) i
      in case np_linalg_solve a b of
           Inl e \<Rightarrow> Inl e
         | Inr x \<Rightarrow> Inr (map (\<lambda>x_j. 2 * x_j) x))"

definition NewtonCotes_rule :: "NewtonCotes \<Rightarrow> exn + nodes_weights" where
  "NewtonCotes_rule self =
     (let nodes =
            (if open self
             then let h = 2 / real_of_int (npoints self)
                  in [np_linspace (- 1 + h) (1 - h) (npoints self)]
             else [np_linspace (- 1) 1 (npoints self)])
      in case newton_cotes_weights (concat nodes) of
           Inl e \<Rightarrow> Inl e
         | Inr weights \<Rightarrow> Inr (nodes, weights))"

subsection \<open>Genz-Malik weights\<close>

text \<open>
  \<^verbatim>\<open>GenzMalik.__init__\<close>, and the weight arrays of \<^verbatim>\<open>GenzMalik.rule\<close> and
  \<^verbatim>\<open>GenzMalik.lower_rule\<close>; \<^verbatim>\<open>np.repeat(vals, repeats)\<close> repeats each value.
\<close>

record GenzMalik =
  ndim :: int
  degree :: int
  lower_degree :: int

definition GenzMalik_init :: "int \<Rightarrow> int \<Rightarrow> int \<Rightarrow> exn + GenzMalik" where
  "GenzMalik_init ndim' degree' lower_degree' =
     (if ndim' < 2 then Inl (ValueError ''Genz-Malik cubature is only defined for ndim >= 2'')
      else if degree' \<noteq> 7 \<or> lower_degree' \<noteq> 5 then Inl NotImplementedError
      else Inr \<lparr>ndim = ndim', degree = degree', lower_degree = lower_degree'\<rparr>)"

definition np_repeat :: "'a list \<Rightarrow> int list \<Rightarrow> 'a list" where
  "np_repeat vals repeats = concat (map2 (\<lambda>v r. replicate (nat r) v) vals repeats)"

definition GenzMalik_rule_weights :: "GenzMalik \<Rightarrow> real list" where
  "GenzMalik_rule_weights self =
     (let w_1 = (2 ^ nat (ndim self)) * (12824 - 9120 * real_of_int (ndim self) + 400 * (real_of_int (ndim self))\<^sup>2) / 19683;
          w_2 = (2 ^ nat (ndim self)) * 980 / 6561;
          w_3 = (2 ^ nat (ndim self)) * (1820 - 400 * real_of_int (ndim self)) / 19683;
          w_4 = (2 ^ nat (ndim self)) * (200 / 19683);
          w_5 = 6859 / 19683
      in np_repeat [w_1, w_2, w_3, w_4, w_5]
           [1, 2 * ndim self, 2 * ndim self, 2 * (ndim self - 1) * ndim self, 2 ^ nat (ndim self)])"

definition GenzMalik_lower_rule_weights :: "GenzMalik \<Rightarrow> real list" where
  "GenzMalik_lower_rule_weights self =
     (let w_1 = (2 ^ nat (ndim self)) * (729 - 950 * real_of_int (ndim self) + 50 * (real_of_int (ndim self))\<^sup>2) / 729;
          w_2 = (2 ^ nat (ndim self)) * (245 / 486);
          w_3 = (2 ^ nat (ndim self)) * (265 - 100 * real_of_int (ndim self)) / 1458;
          w_4 = (2 ^ nat (ndim self)) * (25 / 729)
      in np_repeat [w_1, w_2, w_3, w_4]
           [1, 2 * ndim self, 2 * ndim self, 2 * (ndim self - 1) * ndim self])"

subsection \<open>Splitting a region\<close>

text \<open>
  \<^verbatim>\<open>itertools.product\<close> of a list of pools (the last pool varies fastest), and
  \<^verbatim>\<open>_subregion_coordinates\<close>, which zips the products of the pools \<open>(a\<^sub>i, m\<^sub>i)\<close> and
  \<open>(m\<^sub>i, b\<^sub>i)\<close>.
\<close>

fun itertools_product :: "'a list list \<Rightarrow> 'a list list" where
  "itertools_product [] = [[]]"
| "itertools_product (pool # pools) =
     concat (map (\<lambda>x. map ((#) x) (itertools_product pools)) pool)"

definition subregion_coordinates :: "real list \<Rightarrow> real list \<Rightarrow> (real list \<times> real list) list" where
  "subregion_coordinates a b =
     (let m = map2 (\<lambda>a_i b_i. (a_i + b_i) / 2) a b
      in zip (itertools_product (map2 (\<lambda>a_i m_i. [a_i, m_i]) a m))
             (itertools_product (map2 (\<lambda>m_i b_i. [m_i, b_i]) m b)))"



subsection \<open>Regions and the priority queue\<close>

text \<open>
  The dataclasses \<^verbatim>\<open>CubatureRegion\<close> and \<^verbatim>\<open>CubatureResult\<close>. A region is less than another
  when the maximum norm of its error is greater, so that the region with the largest error
  is at the top of the heap. \<^verbatim>\<open>np.max\<close> raises on an empty array.
\<close>

record CubatureRegion =
  region_estimate :: "real list"
  region_error :: "real list"
  region_a :: "real list"
  region_b :: "real list"

record CubatureResult =
  res_estimate :: "real list"
  res_error :: "real list"
  res_success :: bool
  res_status :: string
  res_regions :: "CubatureRegion list"
  res_subdivisions :: nat
  res_atol :: real
  res_rtol :: real

definition max_norm :: "real list \<Rightarrow> exn + real" where
  "max_norm x =
     (if x = [] then Inl (ValueError ''zero-size array to reduction operation maximum which has no identity'')
      else Inr (fold max (map abs (tl x)) (abs (hd x))))"

definition CubatureRegion_lt :: "CubatureRegion \<Rightarrow> CubatureRegion \<Rightarrow> exn + bool" where
  "CubatureRegion_lt self other =
     (case max_norm (region_error self) of
        Inl e \<Rightarrow> Inl e
      | Inr n_self \<Rightarrow>
          (case max_norm (region_error other) of
             Inl e \<Rightarrow> Inl e
           | Inr n_other \<Rightarrow> Inr (n_self > n_other)))"

text \<open>
  \<^verbatim>\<open>heapq.heappush\<close> and \<^verbatim>\<open>heapq.heappop\<close> of the Python standard library, with their
  helpers \<^verbatim>\<open>_siftdown\<close> and \<^verbatim>\<open>_siftup\<close>, on a list; the comparison may raise.
  \<open>siftdown_loop\<close> and \<open>siftup_loop\<close> are the two \<^verbatim>\<open>while\<close> loops.
\<close>

function siftdown_loop :: "('a \<Rightarrow> 'a \<Rightarrow> exn + bool) \<Rightarrow> 'a list \<Rightarrow> nat \<Rightarrow> nat \<Rightarrow> 'a \<Rightarrow> exn + 'a list" where
  "siftdown_loop lt heap startpos pos newitem =
     (if pos > startpos then
        (let parentpos = (pos - 1) div 2;
             parent = heap ! parentpos
         in case lt newitem parent of
              Inl e \<Rightarrow> Inl e
            | Inr smaller \<Rightarrow>
                if smaller then siftdown_loop lt (heap[pos := parent]) startpos parentpos newitem
                else Inr (heap[pos := newitem]))
      else Inr (heap[pos := newitem]))"
  by pat_completeness auto
termination
  by (relation "measure (\<lambda>(lt, heap, startpos, pos, newitem). pos)") auto

declare siftdown_loop.simps [simp del]

definition siftdown :: "('a \<Rightarrow> 'a \<Rightarrow> exn + bool) \<Rightarrow> 'a list \<Rightarrow> nat \<Rightarrow> nat \<Rightarrow> exn + 'a list" where
  "siftdown lt heap startpos pos = siftdown_loop lt heap startpos pos (heap ! pos)"

function siftup_loop :: "('a \<Rightarrow> 'a \<Rightarrow> exn + bool) \<Rightarrow> 'a list \<Rightarrow> nat \<Rightarrow> exn + ('a list \<times> nat)" where
  "siftup_loop lt heap pos =
     (let endpos = length heap;
          childpos = 2 * pos + 1
      in if childpos < endpos then
           (let rightpos = childpos + 1
            in case (if rightpos < endpos
                     then (case lt (heap ! childpos) (heap ! rightpos) of
                             Inl e \<Rightarrow> Inl e
                           | Inr smaller \<Rightarrow> Inr (if \<not> smaller then rightpos else childpos))
                     else Inr childpos) of
                 Inl e \<Rightarrow> Inl e
               | Inr childpos' \<Rightarrow> siftup_loop lt (heap[pos := heap ! childpos']) childpos')
         else Inr (heap, pos))"
  by pat_completeness auto
termination
  apply (relation "measure (\<lambda>(lt, heap, pos). length heap - pos)")
   apply (auto split: if_splits sum.splits)
  done

declare siftup_loop.simps [simp del]

definition siftup :: "('a \<Rightarrow> 'a \<Rightarrow> exn + bool) \<Rightarrow> 'a list \<Rightarrow> nat \<Rightarrow> exn + 'a list" where
  "siftup lt heap pos =
     (let startpos = pos;
          newitem = heap ! pos
      in case siftup_loop lt heap pos of
           Inl e \<Rightarrow> Inl e
         | Inr (heap', pos') \<Rightarrow> siftdown lt (heap'[pos' := newitem]) startpos pos')"

definition heappush :: "('a \<Rightarrow> 'a \<Rightarrow> exn + bool) \<Rightarrow> 'a list \<Rightarrow> 'a \<Rightarrow> exn + 'a list" where
  "heappush lt heap item = siftdown lt (heap @ [item]) 0 (length (heap @ [item]) - 1)"

definition heappop :: "('a \<Rightarrow> 'a \<Rightarrow> exn + bool) \<Rightarrow> 'a list \<Rightarrow> exn + ('a \<times> 'a list)" where
  "heappop lt heap =
     (if heap = [] then Inl IndexError
      else
        let lastelt = last heap;
            heap' = butlast heap
        in if heap' \<noteq> [] then
             (let returnitem = heap' ! 0
              in case siftup lt (heap'[0 := lastelt]) 0 of
                   Inl e \<Rightarrow> Inl e
                 | Inr heap'' \<Rightarrow> Inr (returnitem, heap''))
           else Inr (lastelt, heap'))"


subsection \<open>The adaptive driver\<close>

text \<open>
  The bounds \<open>a\<close> and \<open>b\<close> of \<^verbatim>\<open>cubature\<close> are array-likes of any rank; the local variables
  of its loop are the state \<open>loop_state\<close>. \<open>tolerance_exceeded\<close> is the loop condition
  \<^verbatim>\<open>np.any(err > atol + rtol * np.abs(est))\<close>, \<open>refine_subregions\<close> the \<^verbatim>\<open>for\<close> loop over
  the subregions, \<open>subdivide\<close> the loop body up to the increment of the counter, and
  \<open>budget_reached\<close> the test \<^verbatim>\<open>subdivisions >= max_subdivisions\<close>, where
  \<^verbatim>\<open>max_subdivisions=None\<close> stands for no bound. The loop need not terminate then, so
  \<open>cubature_loop\<close> returns an option; the flag it returns is \<^verbatim>\<open>success\<close>.

  The source updates the accumulators in place. The first region shares its arrays with
  them, and it is popped before the first update; every later region holds arrays of its
  own. So no update reaches a region of the working set, and the state can be passed on
  by value.
\<close>

datatype array_like = Array0 real | Array1 "real list" | Array2 "real list list"

record loop_state =
  st_est :: "real list"
  st_err :: "real list"
  st_regions :: "CubatureRegion list"
  st_subdivisions :: nat

definition tolerance_exceeded :: "real \<Rightarrow> real \<Rightarrow> real list \<Rightarrow> real list \<Rightarrow> bool" where
  "tolerance_exceeded rtol atol est err =
     list_ex (\<lambda>(err_i, est_i). err_i > atol + rtol * \<bar>est_i\<bar>) (zip err est)"

fun refine_subregions ::
  "'f Cubature \<Rightarrow> 'f \<Rightarrow> (real list \<times> real list) list \<Rightarrow> loop_state \<Rightarrow> exn + loop_state" where
  "refine_subregions rule' f [] s = Inr s"
| "refine_subregions rule' f ((a_k_sub, b_k_sub) # rest) s =
     (case estimate rule' f a_k_sub b_k_sub of
        Inl e \<Rightarrow> Inl e
      | Inr est_sub \<Rightarrow>
          (case error_estimate rule' f a_k_sub b_k_sub of
             Inl e \<Rightarrow> Inl e
           | Inr err_sub \<Rightarrow>
               let est = map2 (+) (st_est s) est_sub;
                   err = map2 (+) (st_err s) err_sub;
                   new_region = \<lparr>region_estimate = est_sub, region_error = err_sub,
                                 region_a = a_k_sub, region_b = b_k_sub\<rparr>
               in (case heappush CubatureRegion_lt (st_regions s) new_region of
                     Inl e \<Rightarrow> Inl e
                   | Inr regions \<Rightarrow>
                       refine_subregions rule' f rest
                         (s\<lparr>st_est := est, st_err := err, st_regions := regions\<rparr>))))"

definition subdivide :: "'f Cubature \<Rightarrow> 'f \<Rightarrow> loop_state \<Rightarrow> exn + loop_state" where
  "subdivide rule' f s =
     (case heappop CubatureRegion_lt (st_regions s) of
        Inl e \<Rightarrow> Inl e
      | Inr (region_k, regions) \<Rightarrow>
          let est_k = region_estimate region_k;
              err_k = region_error region_k;
              a_k = region_a region_k;
              b_k = region_b region_k;
              est = map2 (-) (st_est s) est_k;
              err = map2 (-) (st_err s) err_k
          in (case refine_subregions rule' f (subregion_coordinates a_k b_k)
                     (s\<lparr>st_est := est, st_err := err, st_regions := regions\<rparr>) of
                Inl e \<Rightarrow> Inl e
              | Inr s' \<Rightarrow> Inr (s'\<lparr>st_subdivisions := st_subdivisions s' + 1\<rparr>)))"

definition budget_reached :: "nat \<Rightarrow> int option \<Rightarrow> bool" where
  "budget_reached subdivisions max_subdivisions =
     (case max_subdivisions of None \<Rightarrow> False | Some m \<Rightarrow> int subdivisions \<ge> m)"

partial_function (option) cubature_loop ::
  "'f Cubature \<Rightarrow> 'f \<Rightarrow> real \<Rightarrow> real \<Rightarrow> int option \<Rightarrow> loop_state \<Rightarrow> (exn + loop_state \<times> bool) option" where
  "cubature_loop rule' f rtol atol max_subdivisions s =
     (if tolerance_exceeded rtol atol (st_est s) (st_err s) then
        (case subdivide rule' f s of
           Inl e \<Rightarrow> Some (Inl e)
         | Inr s' \<Rightarrow>
             if budget_reached (st_subdivisions s') max_subdivisions then Some (Inr (s', False))
             else cubature_loop rule' f rtol atol max_subdivisions s')
      else Some (Inr (s, True)))"

declare cubature_loop.simps [code]

definition cubature ::
  "'f \<Rightarrow> array_like \<Rightarrow> array_like \<Rightarrow> 'f Cubature \<Rightarrow> real \<Rightarrow> real \<Rightarrow> int option
     \<Rightarrow> (exn + CubatureResult) option" where
  "cubature f a b rule' rtol atol max_subdivisions =
     (case (a, b) of
        (Array1 a, Array1 b) \<Rightarrow>
          (case estimate rule' f a b of
             Inl e \<Rightarrow> Some (Inl e)
           | Inr est \<Rightarrow>
               (case error_estimate rule' f a b of
                  Inl e \<Rightarrow>
                    Some (Inl (if e = NotImplementedError
                               then ValueError ''attempting cubature with a rule that doesn't implement error estimation.''
                               else e))
                | Inr err \<Rightarrow>
                    (case cubature_loop rule' f rtol atol max_subdivisions
                            \<lparr>st_est = est, st_err = err,
                             st_regions = [\<lparr>region_estimate = est, region_error = err,
                                            region_a = a, region_b = b\<rparr>],
                             st_subdivisions = 0\<rparr> of
                       None \<Rightarrow> None
                     | Some (Inl e) \<Rightarrow> Some (Inl e)
                     | Some (Inr (s, success)) \<Rightarrow>
                         Some (Inr \<lparr>res_estimate = st_est s, res_error = st_err s,
                                    res_success = success,
                                    res_status = (if success then ''converged'' else ''not_converged''),
                                    res_regions = st_regions s,
                                    res_subdivisions = st_subdivisions s,
                                    res_atol = atol, res_rtol = rtol\<rparr>))))
      | _ \<Rightarrow> Some (Inl (ValueError ''a and b should be 1D arrays'')))"

text \<open>
  To state the invariant of the loop: the elementwise sum of a field over a list of regions,
  for arrays of \<open>n\<close> components; the state in which the loop condition is evaluated for the
  \<open>k\<close>-th time after the first, if the loop gets that far; and the accumulators agreeing
  with the regions of a state.
\<close>

definition sum_over_regions :: "nat \<Rightarrow> (CubatureRegion \<Rightarrow> real list) \<Rightarrow> CubatureRegion list \<Rightarrow> real list" where
  "sum_over_regions n field regions = map (\<lambda>i. sum_list (map (\<lambda>r. field r ! i) regions)) [0..<n]"

fun state_at_test ::
  "'f Cubature \<Rightarrow> 'f \<Rightarrow> real \<Rightarrow> real \<Rightarrow> int option \<Rightarrow> loop_state \<Rightarrow> nat \<Rightarrow> loop_state option" where
  "state_at_test rule' f rtol atol max_subdivisions s0 0 = Some s0"
| "state_at_test rule' f rtol atol max_subdivisions s0 (Suc k) =
     (case state_at_test rule' f rtol atol max_subdivisions s0 k of
        None \<Rightarrow> None
      | Some s \<Rightarrow>
          if tolerance_exceeded rtol atol (st_est s) (st_err s) then
            (case subdivide rule' f s of
               Inl e \<Rightarrow> None
             | Inr s' \<Rightarrow>
                 if budget_reached (st_subdivisions s') max_subdivisions then None else Some s')
          else None)"

definition consistent :: "nat \<Rightarrow> loop_state \<Rightarrow> bool" where
  "consistent n s \<longleftrightarrow>
     length (st_est s) = n \<and> length (st_err s) = n \<and>
     (\<forall>r \<in> set (st_regions s). length (region_estimate r) = n \<and> length (region_error r) = n) \<and>
     st_est s = sum_over_regions n region_estimate (st_regions s) \<and>
     st_err s = sum_over_regions n region_error (st_regions s)"

section \<open>Properties\<close>

subsection \<open>Fixed rules\<close>

lemma sum_list_map2_nth:
  fixes ws vs :: "real list"
  shows "length vs = length ws \<Longrightarrow> sum_list (map2 (*) ws vs) = (\<Sum>k<length ws. ws ! k * vs ! k)"
proof -
  assume l: "length vs = length ws"
  have "map2 (*) ws vs = map (\<lambda>k. ws ! k * vs ! k) [0..<length ws]"
    using l by (intro nth_equalityI) simp_all
  then show ?thesis
    by (simp add: interv_sum_list_conv_sum_set_nat atLeast0LessThan)
qed

lemma prod_list_map_upt:
  fixes g :: "nat \<Rightarrow> real"
  shows "prod_list (map g [0..<d]) = (\<Prod>i<d. g i)"
  using prod.distinct_set_conv_list [of "[0..<d]" g] by (simp add: atLeast0LessThan)

lemma mapped_nodes_nth:
  fixes a b :: "real list"
  assumes "length nodes = d" "length a = d" "length b = d"
  shows "map (\<lambda>(row, l, a_i). map (\<lambda>x. (x + 1) * (l / 2) + a_i) row)
           (zip nodes (zip (map2 (\<lambda>b_i a_i. b_i - a_i) b a) a))
         = map (\<lambda>i. map (\<lambda>x. (x + 1) * ((b ! i - a ! i) / 2) + a ! i) (nodes ! i)) [0..<d]"
  using assms by (intro nth_equalityI) simp_all

lemma scale_factor_nth:
  fixes a b :: "real list"
  assumes "length a = d" "length b = d"
  shows "prod_list (map (\<lambda>l. l / 2) (map2 (\<lambda>b_i a_i. b_i - a_i) b a)) = (\<Prod>i<d. (b ! i - a ! i) / 2)"
proof -
  have "map (\<lambda>l. l / 2) (map2 (\<lambda>b_i a_i. b_i - a_i) b a) = map (\<lambda>i. (b ! i - a ! i) / 2) [0..<d]"
    using assms by (intro nth_equalityI) simp_all
  then show ?thesis by (simp add: prod_list_map_upt)
qed

text \<open>
  C1. For a fixed rule (nodes, weights) of dimension \<open>d\<close> and bounds \<open>a\<close>, \<open>b\<close> of length
  \<open>d\<close>, \<open>estimate\<close> is the weighted sum over the last axis of the integrand's output,
  \<open>\<Sum>\<^sub>k weight'\<^sub>k * f(node'\<^sub>k)\<close>, with \<open>node' = (node + 1) * (b - a) / 2 + a\<close> on each axis and
  \<open>weight'\<^sub>k = weight\<^sub>k * \<Prod>\<^sub>i (b\<^sub>i - a\<^sub>i) / 2\<close>. The integrand returns one value per node.
\<close>

theorem FixedCubature_estimate_weighted_sum:
  fixes self :: "'z FixedCubature_scheme"
  assumes r: "rule self = (nodes, weights)"
    and d: "length nodes = d" "length a = d" "length b = d"
    and shape: "\<forall>vals \<in> set (f (map (\<lambda>i. map (\<lambda>x. (x + 1) * ((b ! i - a ! i) / 2) + a ! i) (nodes ! i)) [0..<d])).
                  length vals = length weights"
  shows "FixedCubature_estimate self f a b =
           Inr (map (\<lambda>vals. \<Sum>k<length weights. (weights ! k * (\<Prod>i<d. (b ! i - a ! i) / 2)) * vals ! k)
                  (f (map (\<lambda>i. map (\<lambda>x. (x + 1) * ((b ! i - a ! i) / 2) + a ! i) (nodes ! i)) [0..<d])))"
proof -
  let ?nodes' = "map (\<lambda>i. map (\<lambda>x. (x + 1) * ((b ! i - a ! i) / 2) + a ! i) (nodes ! i)) [0..<d]"
  let ?s = "\<Prod>i<d. (b ! i - a ! i) / 2"
  have est: "FixedCubature_estimate self f a b =
      Inr (map (\<lambda>vals. sum_list (map2 (*) (map (\<lambda>w. w * ?s) weights) vals)) (f ?nodes'))"
    unfolding FixedCubature_estimate_def apply_rule_def r Let_def prod.case
      mapped_nodes_nth [OF d] scale_factor_nth [OF d(2,3)]
    using d by simp
  have "sum_list (map2 (*) (map (\<lambda>w. w * ?s) weights) vals)
      = (\<Sum>k<length weights. (weights ! k * ?s) * vals ! k)"
    if "vals \<in> set (f ?nodes')" for vals
  proof -
    have "length vals = length (map (\<lambda>w. w * ?s) weights)" using shape that by simp
    from sum_list_map2_nth [OF this] show ?thesis by simp
  qed
  then show ?thesis unfolding est by simp
qed

theorem FixedCubature_estimate_weighted_sum_witness:
  "FixedCubature_estimate \<lparr>rule = ([[-1, 1]], [1, 1])\<rparr> (\<lambda>x. [map (\<lambda>t. t * t) (hd x), hd x]) [0] [2]
     = Inr [4, 2]"
  using FixedCubature_estimate_weighted_sum
    [of "\<lparr>rule = ([[-1, 1]], [1, 1])\<rparr>" "[[-1, 1]]" "[1, 1]" 1 "[0]" "[2]" "(\<lambda>x. [map (\<lambda>t. t * t) (hd x), hd x])"]
  by (simp add: lessThan_Suc numeral_2_eq_2)

lemma apply_rule_eq:
  assumes "length nodes = length a" "length b = length a"
  shows "apply_rule f a b (nodes, weights) =
     Inr (map (\<lambda>vs. sum_list (map2 (*) (map (\<lambda>w. w * prod_list (map (\<lambda>l. l / 2) (map2 (\<lambda>b_i a_i. b_i - a_i) b a))) weights) vs))
        (f (nodes_on_region a b nodes)))"
proof -
  have "map (\<lambda>(row, l, a_i). map (\<lambda>x. (x + 1) * (l / 2) + a_i) row)
           (zip nodes (zip (map2 (\<lambda>b_i a_i. b_i - a_i) b a) a)) = nodes_on_region a b nodes"
    unfolding nodes_on_region_def using assms by (intro nth_equalityI) simp_all
  then show ?thesis
    unfolding apply_rule_def Let_def prod.case using assms by simp
qed

lemma nodes_on_region_concat:
  assumes "length x = length y"
  shows "nodes_on_region a b (map2 (@) x y) = map2 (@) (nodes_on_region a b x) (nodes_on_region a b y)"
  unfolding nodes_on_region_def using assms by (intro nth_equalityI) simp_all

lemma sum_list_map2_uminus:
  fixes v q :: "real list"
  shows "sum_list (map2 (*) (map (\<lambda>w. w * s) (map uminus v)) q) = - sum_list (map2 (*) (map (\<lambda>w. w * s) v) q)"
proof (induction v arbitrary: q)
  case Nil
  then show ?case by simp
next
  case (Cons x v)
  then show ?case by (cases q) simp_all
qed

lemma weighted_row_difference:
  fixes s :: real
  assumes "length p = length wH"
  shows "sum_list (map2 (*) (map (\<lambda>w. w * s) (wH @ map uminus wL)) (p @ q))
       = sum_list (map2 (*) (map (\<lambda>w. w * s) wH) p) - sum_list (map2 (*) (map (\<lambda>w. w * s) wL) q)"
proof -
  have "sum_list (map2 (*) (map (\<lambda>w. w * s) (map uminus wL)) q)
      = - sum_list (map2 (*) (map (\<lambda>w. w * s) wL) q)"
    by (rule sum_list_map2_uminus)
  then show ?thesis using assms by simp
qed

text \<open>
  C2. For fixed rules \<open>H\<close> and \<open>L\<close> of the same dimension, the error estimate of
  \<open>ErrorFromDifference(H, L)\<close>, one weighted sum over the concatenated nodes with the
  weights of \<open>L\<close> negated, is the elementwise absolute value of the difference of the two
  estimates. The integrand is evaluated once, on the concatenated batch, and returns there
  the concatenation of what it returns on the two batches.
\<close>

theorem ErrorFromDifference_error_estimate_abs_difference:
  assumes H: "rule higher = (nodes_H, weights_H)" and L: "rule lower = (nodes_L, weights_L)"
    and d: "length nodes_H = length a" "length nodes_L = length a" "length b = length a"
    and once: "f (map2 (@) (nodes_on_region a b nodes_H) (nodes_on_region a b nodes_L))
                 = map2 (@) (f (nodes_on_region a b nodes_H)) (f (nodes_on_region a b nodes_L))"
    and shape: "\<forall>vs \<in> set (f (nodes_on_region a b nodes_H)). length vs = length weights_H"
  shows "\<exists>est_H est_L.
           FixedCubature_estimate higher f a b = Inr est_H \<and>
           FixedCubature_estimate lower f a b = Inr est_L \<and>
           ErrorFromDifference_error_estimate (ErrorFromDifference_init higher lower) f a b
             = Inr (map2 (\<lambda>h l. \<bar>h - l\<bar>) est_H est_L)"
proof -
  let ?XH = "nodes_on_region a b nodes_H" and ?XL = "nodes_on_region a b nodes_L"
  define s where "s = prod_list (map (\<lambda>l. l / 2) (map2 (\<lambda>b_i a_i. b_i - a_i) b a))"
  define g where "g ws vs = sum_list (map2 (*) (map (\<lambda>w. w * s) ws) vs)" for ws vs :: "real list"
  have g: "apply_rule f a b (nodes, weights) = Inr (map (g weights) (f (nodes_on_region a b nodes)))"
    if "length nodes = length a" for nodes weights
    using apply_rule_eq [OF that d(3), of f weights] unfolding g_def s_def .
  have eH: "FixedCubature_estimate higher f a b = Inr (map (g weights_H) (f ?XH))"
    unfolding FixedCubature_estimate_def H by (rule g) (rule d)
  have eL: "FixedCubature_estimate lower f a b = Inr (map (g weights_L) (f ?XL))"
    unfolding FixedCubature_estimate_def L by (rule g) (rule d)
  have cat: "np_concat_last nodes_H nodes_L = Inr (map2 (@) nodes_H nodes_L)"
    using d by (simp add: np_concat_last_def)
  have "nodes_on_region a b (map2 (@) nodes_H nodes_L) = map2 (@) ?XH ?XL"
    by (rule nodes_on_region_concat) (simp add: d)
  then have ap: "apply_rule f a b (map2 (@) nodes_H nodes_L, weights_H @ map uminus weights_L)
      = Inr (map (g (weights_H @ map uminus weights_L)) (map2 (@) (f ?XH) (f ?XL)))"
    using g [of "map2 (@) nodes_H nodes_L" "weights_H @ map uminus weights_L"] d
    by (simp add: once)
  have row: "g (weights_H @ map uminus weights_L) (p @ q) = g weights_H p - g weights_L q"
    if "p \<in> set (f ?XH)" for p q
  proof -
    have "length p = length weights_H" using shape that by simp
    then show ?thesis unfolding g_def by (rule weighted_row_difference)
  qed
  have "map abs (map (g (weights_H @ map uminus weights_L)) (map2 (@) (f ?XH) (f ?XL)))
      = map2 (\<lambda>h l. \<bar>h - l\<bar>) (map (g weights_H) (f ?XH)) (map (g weights_L) (f ?XL))"
    by (intro nth_equalityI) (simp_all add: row)
  then have "ErrorFromDifference_error_estimate (ErrorFromDifference_init higher lower) f a b
      = Inr (map2 (\<lambda>h l. \<bar>h - l\<bar>) (map (g weights_H) (f ?XH)) (map (g weights_L) (f ?XL)))"
    unfolding ErrorFromDifference_error_estimate_def ErrorFromDifference_init_def
    by (simp add: H L cat ap Let_def)
  with eH eL show ?thesis by blast
qed

theorem ErrorFromDifference_error_estimate_abs_difference_witness:
  "FixedCubature_estimate \<lparr>rule = ([[- 1, 1]], [1, 1])\<rparr> (\<lambda>x. [map (\<lambda>t. t * t) (hd x)]) [0] [2] = Inr [4] \<and>
   FixedCubature_estimate \<lparr>rule = ([[0]], [2])\<rparr> (\<lambda>x. [map (\<lambda>t. t * t) (hd x)]) [0] [2] = Inr [2] \<and>
   ErrorFromDifference_error_estimate
      (ErrorFromDifference_init \<lparr>rule = ([[- 1, 1]], [1, 1])\<rparr> \<lparr>rule = ([[0]], [2])\<rparr>)
      (\<lambda>x. [map (\<lambda>t. t * t) (hd x)]) [0] [2]
     = Inr [\<bar>4 - 2\<bar>]"
proof -
  let ?f = "\<lambda>x :: real list list. [map (\<lambda>t. t * t) (hd x)]"
  have eH: "FixedCubature_estimate \<lparr>rule = ([[- 1, 1]], [1, 1])\<rparr> ?f [0] [2] = Inr [4]"
    by (simp add: FixedCubature_estimate_def apply_rule_def)
  have eL: "FixedCubature_estimate \<lparr>rule = ([[0]], [2])\<rparr> ?f [0] [2] = Inr [2]"
    by (simp add: FixedCubature_estimate_def apply_rule_def)
  from ErrorFromDifference_error_estimate_abs_difference
    [of "\<lparr>rule = ([[- 1, 1]], [1, 1])\<rparr>" "[[- 1, 1]]" "[1, 1]" "\<lparr>rule = ([[0]], [2])\<rparr>" "[[0]]" "[2]"
        "[0]" "[2]" ?f]
  obtain est_H est_L where
    "FixedCubature_estimate \<lparr>rule = ([[- 1, 1]], [1, 1])\<rparr> ?f [0] [2] = Inr est_H"
    "FixedCubature_estimate \<lparr>rule = ([[0]], [2])\<rparr> ?f [0] [2] = Inr est_L"
    "ErrorFromDifference_error_estimate
      (ErrorFromDifference_init \<lparr>rule = ([[- 1, 1]], [1, 1])\<rparr> \<lparr>rule = ([[0]], [2])\<rparr>) ?f [0] [2]
     = Inr (map2 (\<lambda>h l. \<bar>h - l\<bar>) est_H est_L)"
    by (auto simp: nodes_on_region_def)
  with eH eL show ?thesis by simp
qed

text \<open>
  When the bounds are not of the dimension of the rules, both estimates and the error
  estimate raise the same \<open>ValueError\<close>.
\<close>

lemma ErrorFromDifference_dimension_mismatch:
  assumes "rule higher = (nodes_H, weights_H)" "rule lower = (nodes_L, weights_L)"
    and "length nodes_H = length nodes_L" "length nodes_H \<noteq> length a \<or> length nodes_H \<noteq> length b"
  shows "FixedCubature_estimate higher f a b = Inl (ValueError ''cubature rule and function are of incompatible dimension'') \<and>
         FixedCubature_estimate lower f a b = Inl (ValueError ''cubature rule and function are of incompatible dimension'') \<and>
         ErrorFromDifference_error_estimate (ErrorFromDifference_init higher lower) f a b
           = Inl (ValueError ''cubature rule and function are of incompatible dimension'')"
  using assms
  by (auto simp: FixedCubature_estimate_def ErrorFromDifference_error_estimate_def
        ErrorFromDifference_init_def apply_rule_def np_concat_last_def Let_def)

subsection \<open>Newton-Cotes rules\<close>

lemma dot_eliminate:
  fixes r p xs :: "real list"
  assumes "length r = length p"
  shows "sum_list (map2 (*) (map2 (\<lambda>x y. x - k * y) r p) xs)
       = sum_list (map2 (*) r xs) - k * sum_list (map2 (*) p xs)"
  using assms
proof (induction r p arbitrary: xs rule: list_induct2)
  case Nil
  then show ?case by simp
next
  case (Cons x r y p)
  then show ?case by (cases xs) (simp_all add: algebra_simps)
qed

lemma solve_eqs_sound:
  assumes "solve_eqs n eqs = Some xs" and "\<forall>(r, c) \<in> set eqs. length r = n"
  shows "length xs = n \<and> (\<forall>(r, c) \<in> set eqs. sum_list (map2 (*) r xs) = c)"
  using assms
proof (induction n arbitrary: eqs xs)
  case 0
  then show ?case by (simp split: if_splits)
next
  case (Suc n)
  from Suc.prems(1) obtain p pc where f: "find (\<lambda>(r, c). hd r \<noteq> 0) eqs = Some (p, pc)"
    by (auto split: option.splits)
  define rest where "rest = remove1 (p, pc) eqs"
  define reduced where "reduced = map (\<lambda>(r, c). (map2 (\<lambda>x y. x - hd r / hd p * y) (tl r) (tl p),
                                         c - hd r / hd p * pc)) rest"
  from Suc.prems(1) f obtain ys where ys: "solve_eqs n reduced = Some ys"
    and xs: "xs = (pc - sum_list (map2 (*) (tl p) ys)) / hd p # ys"
    by (auto simp: Let_def rest_def reduced_def split: option.splits)
  from f have pin: "(p, pc) \<in> set eqs" and p0: "hd p \<noteq> 0"
    by (auto simp: find_Some_iff intro: nth_mem) (metis nth_mem)
  have len: "length r = Suc n" if "(r, c) \<in> set eqs" for r c
    using Suc.prems(2) that by auto
  have rest_sub: "set rest \<subseteq> set eqs"
    unfolding rest_def by (rule set_remove1_subset)
  have eqs_sub: "set eqs \<subseteq> insert (p, pc) (set rest)"
  proof
    fix e assume "e \<in> set eqs"
    then show "e \<in> insert (p, pc) (set rest)"
      unfolding rest_def by (cases "e = (p, pc)") (simp_all add: in_set_remove1)
  qed
  have "\<forall>(r, c) \<in> set reduced. length r = n"
  proof (clarify)
    fix r c assume "(r, c) \<in> set reduced"
    then obtain r' c' where "(r', c') \<in> set rest" "r = map2 (\<lambda>x y. x - hd r' / hd p * y) (tl r') (tl p)"
      by (auto simp: reduced_def)
    then show "length r = n" using len [OF pin] len [of r' c'] rest_sub by auto
  qed
  from Suc.IH [OF ys this]
  have lys: "length ys = n" and red: "\<And>r c. (r, c) \<in> set reduced \<Longrightarrow> sum_list (map2 (*) r ys) = c"
    by auto
  obtain p0' pt where p: "p = p0' # pt" using len [OF pin] by (cases p) auto
  have pivot: "sum_list (map2 (*) p xs) = pc"
    using p0 by (simp add: p xs)
  have other: "sum_list (map2 (*) r xs) = c" if rc: "(r, c) \<in> set rest" for r c
  proof -
    have rin: "(r, c) \<in> set eqs" using rest_sub rc by blast
    obtain r0 rt where r: "r = r0 # rt" using len [OF rin] by (cases r) auto
    have lrt: "length rt = length pt"
      using len [OF pin] len [OF rin] by (simp add: p r)
    have "(map2 (\<lambda>x y. x - r0 / p0' * y) rt pt, c - r0 / p0' * pc) \<in> set reduced"
      using rc by (force simp: reduced_def p r)
    from red [OF this] have "sum_list (map2 (*) rt ys) - r0 / p0' * sum_list (map2 (*) pt ys)
        = c - r0 / p0' * pc"
      unfolding dot_eliminate [OF lrt] .
    then show ?thesis
      using p0 by (simp add: r p xs field_simps)
  qed
  have "sum_list (map2 (*) r xs) = c" if "(r, c) \<in> set eqs" for r c
    using that eqs_sub pivot other by auto
  then show ?case using lys xs by auto
qed

lemma np_linalg_solve_sound:
  assumes "np_linalg_solve a b = Inr x"
  shows "length x = length a \<and> length b = length a \<and> mat_vec a x = b"
proof -
  from assms have sq: "\<forall>row \<in> set a. length row = length a" and lb: "length b = length a"
    and s: "solve_eqs (length a) (zip a b) = Some x"
    by (auto simp: np_linalg_solve_def list_all_iff split: if_splits option.splits)
  have "\<forall>(r, c) \<in> set (zip a b). length r = length a"
    using sq by (auto dest: set_zip_leftD)
  from solve_eqs_sound [OF s this]
  have lx: "length x = length a" and sat: "\<And>r c. (r, c) \<in> set (zip a b) \<Longrightarrow> sum_list (map2 (*) r x) = c"
    by auto
  have "mat_vec a x = b"
    unfolding mat_vec_def
  proof (intro nth_equalityI)
    show "length (map (\<lambda>row. sum_list (map2 (*) row x)) a) = length b" using lb by simp
  next
    fix i assume "i < length (map (\<lambda>row. sum_list (map2 (*) row x)) a)"
    then have i: "i < length a" by simp
    then have "(a ! i, b ! i) \<in> set (zip a b)"
      using lb by (auto simp: set_zip)
    from sat [OF this] i show "map (\<lambda>row. sum_list (map2 (*) row x)) a ! i = b ! i" by simp
  qed
  with lx lb show ?thesis by simp
qed

lemma np_transpose_np_vander_nth:
  assumes "i < length pts"
  shows "length (np_transpose (np_vander pts)) = length pts"
    and "np_transpose (np_vander pts) ! i = map (\<lambda>x_j. x_j ^ i) pts"
proof -
  from assms obtain p ps where pts: "pts = p # ps" by (cases pts) auto
  have T: "np_transpose (np_vander pts)
      = map (\<lambda>i. map (\<lambda>row. row ! i) (np_vander pts)) [0..<length pts]"
    by (simp add: np_transpose_def np_vander_def pts)
  show "length (np_transpose (np_vander pts)) = length pts"
    unfolding T by simp
  have "map (\<lambda>row. row ! i) (np_vander pts) = map (\<lambda>x_j. x_j ^ i) pts"
    using assms unfolding np_vander_def by simp
  then show "np_transpose (np_vander pts) ! i = map (\<lambda>x_j. x_j ^ i) pts"
    unfolding T using assms by simp
qed

lemma newton_cotes_weights_exact:
  assumes "newton_cotes_weights pts = Inr w"
  shows "length w = length pts \<and>
         (\<forall>i<length pts. (\<Sum>j<length pts. pts ! j ^ i * w ! j) = (1 - (- 1) ^ (i + 1)) / (real i + 1))"
proof -
  let ?a = "np_transpose (np_vander pts)"
  let ?b = "map (\<lambda>i. (1 - (- 1) ^ (i + 1)) / (2 * (real i + 1))) [0..<length pts]"
  from assms obtain x where x: "np_linalg_solve ?a ?b = Inr x" and w: "w = map (\<lambda>x_j. 2 * x_j) x"
    by (auto simp: newton_cotes_weights_def Let_def split: sum.splits)
  from np_linalg_solve_sound [OF x]
  have lx: "length x = length pts" and mv: "mat_vec ?a x = ?b" by simp_all
  have "(\<Sum>j<length pts. pts ! j ^ i * w ! j) = (1 - (- 1) ^ (i + 1)) / (real i + 1)"
    if i: "i < length pts" for i
  proof -
    have "mat_vec ?a x ! i = sum_list (map2 (*) (map (\<lambda>x_j. x_j ^ i) pts) x)"
      using np_transpose_np_vander_nth [OF i] i by (simp add: mat_vec_def)
    also have "\<dots> = (\<Sum>j<length pts. pts ! j ^ i * x ! j)"
      using sum_list_map2_nth [of x "map (\<lambda>x_j. x_j ^ i) pts"] lx by simp
    finally have "(\<Sum>j<length pts. pts ! j ^ i * x ! j) = (1 - (- 1) ^ (i + 1)) / (2 * (real i + 1))"
      using mv i by simp
    moreover have "(\<Sum>j<length pts. pts ! j ^ i * w ! j) = 2 * (\<Sum>j<length pts. pts ! j ^ i * x ! j)"
      using lx by (simp add: w sum_distrib_left mult.left_commute)
    moreover have "2 * (c / (2 * d)) = c / d" for c d :: real
      by simp
    ultimately show ?thesis by (simp only:)
  qed
  with lx w show ?thesis by simp
qed

text \<open>
  C5, as the code has it. For \<open>npoints \<ge> 2\<close>, open or closed, the weights \<open>w\<close> that
  \<open>NewtonCotes.rule\<close> returns satisfy \<open>\<Sum>\<^sub>j node\<^sub>j\<^sup>i * w\<^sub>j = (1 - (-1)\<^sup>i\<^sup>+\<^sup>1) / (i + 1)\<close> for every
  \<open>i < npoints\<close>: the right-hand side is \<open>2 * m\<^sub>i\<close>, the integral of \<open>x\<^sup>i\<close> over \<open>[-1, 1]\<close>,
  because the solution of the system with right-hand side \<open>m\<close> is doubled.
\<close>

theorem NewtonCotes_weights_moments:
  assumes "NewtonCotes_init n op = Inr self" and "NewtonCotes_rule self = Inr (nodes, w)"
  shows "length (concat nodes) = nat n \<and> length w = nat n \<and>
         (\<forall>i<nat n. (\<Sum>j<nat n. (concat nodes ! j) ^ i * w ! j) = (1 - (- 1) ^ (i + 1)) / (real i + 1))"
proof -
  from assms(1) have self: "npoints self = n"
    by (auto simp: NewtonCotes_init_def split: if_splits)
  from assms(2) have len: "length (concat nodes) = nat n" and w: "newton_cotes_weights (concat nodes) = Inr w"
    by (auto simp: NewtonCotes_rule_def Let_def self np_linspace_def split: sum.splits if_splits)
  from newton_cotes_weights_exact [OF w] len show ?thesis by simp
qed

theorem NewtonCotes_weights_moments_witness:
  "NewtonCotes_init 3 False = Inr \<lparr>npoints = 3, open = False\<rparr> \<and>
   NewtonCotes_rule \<lparr>npoints = 3, open = False\<rparr> = Inr ([[- 1, 0, 1]], [1 / 3, 4 / 3, 1 / 3]) \<and>
   (- 1) ^ 2 * (1 / 3) + 0 ^ 2 * (4 / 3) + 1 ^ 2 * (1 / 3) = ((1 - (- 1) ^ (2 + 1)) / (real 2 + 1) :: real)"
proof -
  have i: "NewtonCotes_init 3 False = Inr \<lparr>npoints = 3, open = False\<rparr>"
    by (simp add: NewtonCotes_init_def)
  have r: "NewtonCotes_rule \<lparr>npoints = 3, open = False\<rparr> = Inr ([[- 1, 0, 1]], [1 / 3, 4 / 3, 1 / 3])"
    by (simp add: NewtonCotes_rule_def newton_cotes_weights_def np_linspace_def np_linalg_solve_def
       np_transpose_def np_vander_def upt_rec numeral_3_eq_3 numeral_2_eq_2)
  from NewtonCotes_weights_moments [OF i r]
  have "(\<Sum>j<nat 3. (concat [[- 1, 0, 1 :: real]] ! j) ^ 2 * [1 / 3, 4 / 3, 1 / 3 :: real] ! j)
      = (1 - (- 1) ^ (2 + 1)) / (real 2 + 1)"
    by simp
  then have "(- 1) ^ 2 * (1 / 3) + 0 ^ 2 * (4 / 3) + 1 ^ 2 * (1 / 3) = ((1 - (- 1) ^ (2 + 1)) / (real 2 + 1) :: real)"
    by (simp add: lessThan_Suc numeral_3_eq_3)
  with i r show ?thesis by blast
qed

text \<open>
  C5, as stated, fails for the closed rule with two points: the weights are \<open>[1, 1]\<close>, and
  neither the matrix with rows \<open>node\<^sub>j\<^sup>i\<close> over \<open>j\<close> nor its transpose maps them to
  \<open>m = [1, 0]\<close>.
\<close>

theorem NewtonCotes_weights_system_counterexample:
  "NewtonCotes_init 2 False = Inr \<lparr>npoints = 2, open = False\<rparr> \<and>
   NewtonCotes_rule \<lparr>npoints = 2, open = False\<rparr> = Inr ([[- 1, 1]], [1, 1]) \<and>
   mat_vec (np_transpose (np_vander [- 1, 1])) [1, 1]
     \<noteq> [(1 - (- 1) ^ (0 + 1)) / (2 * (0 + 1)), (1 - (- 1) ^ (1 + 1)) / (2 * (1 + 1))] \<and>
   mat_vec (np_vander [- 1, 1]) [1, 1]
     \<noteq> [(1 - (- 1) ^ (0 + 1)) / (2 * (0 + 1)), (1 - (- 1) ^ (1 + 1)) / (2 * (1 + 1))]"
  by (simp add: NewtonCotes_init_def NewtonCotes_rule_def newton_cotes_weights_def np_linspace_def
       np_linalg_solve_def np_transpose_def np_vander_def mat_vec_def upt_rec numeral_2_eq_2)

text \<open>
  The nodes of \<open>np.linspace\<close> are \<open>(stop - start) / (num - 1)\<close> apart. For the open rule that
  is \<open>2 (npoints - 2) / (npoints (npoints - 1))\<close>, which is never \<open>h = 2 / npoints\<close>.
\<close>

lemma np_linspace_spacing:
  assumes "int k + 1 < num"
  shows "np_linspace start stop num ! (k + 1) - np_linspace start stop num ! k
       = (stop - start) / (real_of_int num - 1)"
proof -
  define step where "step = (stop - start) / real (nat num - 1)"
  have k: "k + 1 < nat num" "k < nat num" using assms by linarith+
  have "np_linspace start stop num ! (k + 1) = start + real (k + 1) * step"
    and "np_linspace start stop num ! k = start + real k * step"
    using k by (simp_all add: np_linspace_def step_def del: of_nat_Suc of_nat_add)
  then have "np_linspace start stop num ! (k + 1) - np_linspace start stop num ! k = step"
    by (simp add: algebra_simps)
  moreover have "real (nat num - 1) = real_of_int num - 1"
    using assms by (simp add: of_nat_diff)
  ultimately show ?thesis by (simp add: step_def)
qed

lemma NewtonCotes_open_spacing:
  assumes "NewtonCotes_init n True = Inr self" "NewtonCotes_rule self = Inr (nodes, w)" "int k + 1 < n"
  shows "concat nodes ! (k + 1) - concat nodes ! k
           = 2 * (real_of_int n - 2) / (real_of_int n * (real_of_int n - 1))"
    and "concat nodes ! (k + 1) - concat nodes ! k \<noteq> 2 / real_of_int n"
proof -
  from assms(1) have self: "npoints self = n" "open self" and n: "2 \<le> n"
    by (auto simp: NewtonCotes_init_def split: if_splits)
  from assms(2) have nodes: "concat nodes = np_linspace (- 1 + 2 / real_of_int n) (1 - 2 / real_of_int n) n"
    by (auto simp: NewtonCotes_rule_def Let_def self split: sum.splits)
  have "concat nodes ! (k + 1) - concat nodes ! k
      = ((1 - 2 / real_of_int n) - (- 1 + 2 / real_of_int n)) / (real_of_int n - 1)"
    unfolding nodes by (rule np_linspace_spacing) (rule assms(3))
  also have "\<dots> = 2 * (real_of_int n - 2) / (real_of_int n * (real_of_int n - 1))"
    using n by (simp add: field_simps)
  finally show s: "concat nodes ! (k + 1) - concat nodes ! k
           = 2 * (real_of_int n - 2) / (real_of_int n * (real_of_int n - 1))" .
  have "2 * (real_of_int n - 2) / (real_of_int n * (real_of_int n - 1)) \<noteq> 2 / real_of_int n"
    using n by (simp add: field_simps)
  with s show "concat nodes ! (k + 1) - concat nodes ! k \<noteq> 2 / real_of_int n" by simp
qed

text \<open>
  C6. The open rule with three points has the nodes \<open>-1/3, 0, 1/3\<close>: their spacing is \<open>1/3\<close>,
  not \<open>h = 2/3\<close>. With two points both nodes are \<open>0\<close> and the moment system is singular.
\<close>

theorem NewtonCotes_open_nodes_spacing:
  "NewtonCotes_init 3 True = Inr \<lparr>npoints = 3, open = True\<rparr> \<and>
   NewtonCotes_rule \<lparr>npoints = 3, open = True\<rparr> = Inr ([[- (1 / 3), 0, 1 / 3]], [3, - 4, 3]) \<and>
   (0 :: real) - (- (1 / 3)) = 1 / 3 \<and> (2 :: real) / real_of_int 3 = 2 / 3 \<and>
   NewtonCotes_init 2 True = Inr \<lparr>npoints = 2, open = True\<rparr> \<and>
   np_linspace (- 1 + 2 / real_of_int 2) (1 - 2 / real_of_int 2) 2 = [0, 0] \<and>
   NewtonCotes_rule \<lparr>npoints = 2, open = True\<rparr> = Inl LinAlgError"
  by (simp add: NewtonCotes_init_def NewtonCotes_rule_def newton_cotes_weights_def np_linspace_def
       np_linalg_solve_def np_transpose_def np_vander_def upt_rec numeral_3_eq_3 numeral_2_eq_2)

subsection \<open>Genz-Malik weights\<close>

text \<open>
  C7. For \<open>ndim \<ge> 2\<close> the weights of the degree 7 rule of \<open>GenzMalik(ndim)\<close> sum to
  \<open>2\<^sup>n\<^sup>d\<^sup>i\<^sup>m\<close>, and so do the weights of its degree 5 rule: the volume of \<open>[-1, 1]\<^sup>n\<^sup>d\<^sup>i\<^sup>m\<close>.
\<close>

theorem GenzMalik_weights_sum:
  assumes "GenzMalik_init n 7 5 = Inr self"
  shows "sum_list (GenzMalik_rule_weights self) = 2 ^ nat n \<and>
         sum_list (GenzMalik_lower_rule_weights self) = 2 ^ nat n"
proof -
  from assms have n: "2 \<le> n" and self: "ndim self = n"
    by (auto simp: GenzMalik_init_def split: if_splits)
  have r: "real (nat (2 * n)) = 2 * real_of_int n" "real (nat (2 * (n - 1) * n)) = 2 * (real_of_int n - 1) * real_of_int n"
    using n by simp_all
  have h: "sum_list (GenzMalik_rule_weights self) = 2 ^ nat n"
    unfolding GenzMalik_rule_weights_def np_repeat_def Let_def self
    using n by (simp add: sum_list_replicate r) (simp add: field_simps power2_eq_square)
  have l: "sum_list (GenzMalik_lower_rule_weights self) = 2 ^ nat n"
    unfolding GenzMalik_lower_rule_weights_def np_repeat_def Let_def self
    using n by (simp add: sum_list_replicate r) (simp add: field_simps power2_eq_square)
  from h l show ?thesis by simp
qed

theorem GenzMalik_weights_sum_witness:
  "GenzMalik_init 3 7 5 = Inr \<lparr>ndim = 3, degree = 7, lower_degree = 5\<rparr> \<and>
   sum_list (GenzMalik_rule_weights \<lparr>ndim = 3, degree = 7, lower_degree = 5\<rparr>) = 8 \<and>
   sum_list (GenzMalik_lower_rule_weights \<lparr>ndim = 3, degree = 7, lower_degree = 5\<rparr>) = 8"
proof -
  have h: "GenzMalik_init 3 7 5 = Inr \<lparr>ndim = 3, degree = 7, lower_degree = 5\<rparr>"
    by (simp add: GenzMalik_init_def)
  from GenzMalik_weights_sum [OF h] h show ?thesis by simp
qed

subsection \<open>Splitting a region\<close>









subsection \<open>The priority queue keeps its elements\<close>

lemma mset_update_move:
  assumes "i < length h" "j < length h" "i \<noteq> j"
  shows "mset (h[i := h ! j, j := x]) = mset (h[i := x])"
proof -
  let ?g = "h[i := x]"
  have "h[i := h ! j, j := x] = ?g[j := ?g ! i, i := ?g ! j]"
    using assms by (intro nth_equalityI) (auto simp: nth_list_update)
  moreover have "mset (?g[j := ?g ! i, i := ?g ! j]) = mset ?g"
    using assms by (intro mset_swap) simp_all
  ultimately show ?thesis by simp
qed

lemma siftdown_loop_mset:
  assumes "siftdown_loop lt heap startpos pos newitem = Inr heap'" "pos < length heap"
  shows "mset heap' = mset (heap[pos := newitem])"
  using assms
proof (induction lt heap startpos pos newitem rule: siftdown_loop.induct)
  case (1 lt heap startpos pos newitem)
  show ?case
  proof (cases "pos > startpos")
    case False
    with "1.prems" show ?thesis by (simp add: siftdown_loop.simps [of lt heap startpos pos])
  next
    case True
    define parentpos where "parentpos = (pos - 1) div 2"
    have pp: "parentpos < pos" using True by (simp add: parentpos_def)
    from "1.prems"(1) True obtain smaller where lt: "lt newitem (heap ! parentpos) = Inr smaller"
      by (subst (asm) siftdown_loop.simps) (auto simp: parentpos_def Let_def split: sum.splits)
    show ?thesis
    proof (cases smaller)
      case False
      with "1.prems" True lt show ?thesis
        by (subst (asm) siftdown_loop.simps) (auto simp: parentpos_def Let_def)
    next
      case True': True
      from "1.prems"(1) True lt True'
      have rec: "siftdown_loop lt (heap[pos := heap ! parentpos]) startpos parentpos newitem = Inr heap'"
        by (subst (asm) siftdown_loop.simps) (auto simp: parentpos_def Let_def)
      have "mset heap' = mset (heap[pos := heap ! parentpos, parentpos := newitem])"
        using "1.IH" [OF True parentpos_def refl lt True' rec] pp "1.prems"(2) by simp
      also have "\<dots> = mset (heap[pos := newitem])"
        using pp "1.prems"(2) by (intro mset_update_move) simp_all
      finally show ?thesis .
    qed
  qed
qed

lemma siftup_loop_mset:
  assumes "siftup_loop lt heap pos = Inr (heap', pos')" "pos < length heap"
  shows "length heap' = length heap \<and> pos' < length heap \<and>
         (\<forall>x. mset (heap'[pos' := x]) = mset (heap[pos := x]))"
  using assms
proof (induction "length heap - pos" arbitrary: heap pos rule: less_induct)
  case less
  show ?case
  proof (cases "2 * pos + 1 < length heap")
    case False
    with less.prems show ?thesis
      by (subst (asm) siftup_loop.simps) (simp add: Let_def)
  next
    case True
    from less.prems(1) True obtain c where
      c: "c = 2 * pos + 1 \<or> (c = 2 * pos + 2 \<and> 2 * pos + 2 < length heap)"
      and rec: "siftup_loop lt (heap[pos := heap ! c]) c = Inr (heap', pos')"
      by (subst (asm) siftup_loop.simps) (auto simp: Let_def split: sum.splits if_splits)
    from c True have cl: "c < length heap" and pc: "pos < c" by auto
    have "length (heap[pos := heap ! c]) - c < length heap - pos"
      using cl pc by simp
    from less.hyps [OF this rec] cl
    have l: "length heap' = length heap" and p: "pos' < length heap"
      and m: "\<And>x. mset (heap'[pos' := x]) = mset (heap[pos := heap ! c, c := x])"
      by simp_all
    have "mset (heap[pos := heap ! c, c := x]) = mset (heap[pos := x])" for x
      using less.prems(2) cl pc by (intro mset_update_move) simp_all
    with l p m show ?thesis by simp
  qed
qed

lemma siftdown_mset:
  assumes "siftdown lt heap startpos pos = Inr heap'" "pos < length heap"
  shows "mset heap' = mset heap"
  using siftdown_loop_mset [of lt heap startpos pos "heap ! pos" heap'] assms
  by (simp add: siftdown_def)

lemma siftup_mset:
  assumes "siftup lt heap pos = Inr heap'" "pos < length heap"
  shows "mset heap' = mset heap"
proof -
  from assms(1) obtain h p where l: "siftup_loop lt heap pos = Inr (h, p)"
    and d: "siftdown lt (h[p := heap ! pos]) pos p = Inr heap'"
    by (auto simp: siftup_def Let_def split: sum.splits)
  from siftup_loop_mset [OF l assms(2)]
  have "length h = length heap" "p < length heap" "mset (h[p := heap ! pos]) = mset (heap[pos := heap ! pos])"
    by simp_all
  with siftdown_mset [OF d] show ?thesis by simp
qed

lemma heappush_mset:
  assumes "heappush lt heap item = Inr heap'"
  shows "mset heap' = add_mset item (mset heap)"
  using siftdown_mset [of lt "heap @ [item]" 0 "length heap" heap'] assms
  by (simp add: heappush_def)

lemma heappop_mset:
  assumes "heappop lt heap = Inr (item, heap')"
  shows "mset heap = add_mset item (mset heap')"
proof -
  from assms have ne: "heap \<noteq> []"
    by (auto simp: heappop_def split: if_splits)
  show ?thesis
  proof (cases "butlast heap = []")
    case True
    with assms ne have "item = last heap" "heap' = []"
      by (auto simp: heappop_def Let_def)
    moreover have "mset (butlast heap @ [last heap]) = mset heap"
      using ne by simp
    ultimately show ?thesis using True by simp
  next
    case False
    with assms ne have item: "item = butlast heap ! 0"
      and s: "siftup lt ((butlast heap)[0 := last heap]) 0 = Inr heap'"
      by (auto simp: heappop_def Let_def split: sum.splits)
    from False have l0: "0 < length (butlast heap)"
      using length_greater_0_conv by blast
    from siftup_mset [OF s] l0
    have "mset heap' = mset ((butlast heap)[0 := last heap])" by simp
    also have "\<dots> = add_mset (last heap) (mset (butlast heap) - {#butlast heap ! 0#})"
      using l0 by (simp add: mset_update)
    finally have "add_mset item (mset heap') = add_mset (last heap) (mset (butlast heap))"
      using l0 item by (simp add: insert_DiffM nth_mem_mset)
    also have "\<dots> = mset (butlast heap @ [last heap])"
      by simp
    also have "\<dots> = mset heap"
      using ne by simp
    finally show ?thesis by simp
  qed
qed

subsection \<open>The adaptive driver\<close>

lemma length_sum_over_regions [simp]: "length (sum_over_regions n field rs) = n"
  by (simp add: sum_over_regions_def)

lemma sum_over_regions_mset:
  assumes "mset rs = mset rs'"
  shows "sum_over_regions n field rs = sum_over_regions n field rs'"
proof -
  have "sum_list (map g rs) = sum_list (map g rs')" for g :: "CubatureRegion \<Rightarrow> real"
  proof -
    have "mset (map g rs) = mset (map g rs')" using assms by (metis mset_map)
    then show ?thesis by (metis sum_mset_sum_list)
  qed
  then show ?thesis by (simp add: sum_over_regions_def)
qed

lemma sum_over_regions_Cons:
  assumes "length (field r) = n"
  shows "sum_over_regions n field (r # rs) = map2 (+) (sum_over_regions n field rs) (field r)"
  using assms by (intro nth_equalityI) (simp_all add: sum_over_regions_def)

lemma sum_over_regions_add:
  assumes "mset rs' = add_mset r (mset rs)" "length (field r) = n"
  shows "sum_over_regions n field rs' = map2 (+) (sum_over_regions n field rs) (field r)"
proof -
  have "mset rs' = mset (r # rs)" using assms(1) by simp
  from sum_over_regions_mset [OF this, of n field] sum_over_regions_Cons [of field r n rs] assms(2)
  show ?thesis by simp
qed

lemma sum_over_regions_remove:
  assumes "mset rs = add_mset r (mset rs')" "length (field r) = n"
  shows "map2 (-) (sum_over_regions n field rs) (field r) = sum_over_regions n field rs'"
proof -
  have "sum_over_regions n field rs = map2 (+) (sum_over_regions n field rs') (field r)"
    using assms by (rule sum_over_regions_add)
  then show ?thesis
    using assms(2) by (intro nth_equalityI) (simp_all add: sum_over_regions_def)
qed

lemma refine_subregions_consistent:
  assumes "refine_subregions rule' f subs s = Inr s'" "consistent n s"
    and "\<And>a b e. estimate rule' f a b = Inr e \<Longrightarrow> length e = n"
    and "\<And>a b e. error_estimate rule' f a b = Inr e \<Longrightarrow> length e = n"
  shows "consistent n s' \<and> st_subdivisions s' = st_subdivisions s"
  using assms(1,2)
proof (induction subs arbitrary: s)
  case Nil
  then show ?case by simp
next
  case (Cons ab subs)
  obtain a_sub b_sub where ab: "ab = (a_sub, b_sub)" by (cases ab)
  from Cons.prems(1) obtain est_sub err_sub regions where
    e: "estimate rule' f a_sub b_sub = Inr est_sub" and r: "error_estimate rule' f a_sub b_sub = Inr err_sub"
    and h: "heappush CubatureRegion_lt (st_regions s)
              \<lparr>region_estimate = est_sub, region_error = err_sub, region_a = a_sub, region_b = b_sub\<rparr>
            = Inr regions"
    and rec: "refine_subregions rule' f subs
                (s\<lparr>st_est := map2 (+) (st_est s) est_sub, st_err := map2 (+) (st_err s) err_sub,
                   st_regions := regions\<rparr>) = Inr s'"
    by (auto simp: ab Let_def split: sum.splits)
  let ?new = "\<lparr>region_estimate = est_sub, region_error = err_sub, region_a = a_sub, region_b = b_sub\<rparr>"
  have le: "length est_sub = n" and lr: "length err_sub = n"
    using assms(3) [OF e] assms(4) [OF r] by simp_all
  have m: "mset regions = add_mset ?new (mset (st_regions s))"
    using heappush_mset [OF h] .
  have "consistent n (s\<lparr>st_est := map2 (+) (st_est s) est_sub, st_err := map2 (+) (st_err s) err_sub,
                   st_regions := regions\<rparr>)"
  proof -
    have "set regions = insert ?new (set (st_regions s))"
      using m by (metis set_mset_add_mset_insert set_mset_mset)
    moreover have "sum_over_regions n region_estimate regions
        = map2 (+) (sum_over_regions n region_estimate (st_regions s)) est_sub"
      using sum_over_regions_add [OF m, of region_estimate n] le by simp
    moreover have "sum_over_regions n region_error regions
        = map2 (+) (sum_over_regions n region_error (st_regions s)) err_sub"
      using sum_over_regions_add [OF m, of region_error n] lr by simp
    ultimately show ?thesis
      using Cons.prems(2) le lr by (simp add: consistent_def)
  qed
  from Cons.IH [OF rec this] show ?case by simp
qed

lemma subdivide_consistent:
  assumes "subdivide rule' f s = Inr s'" "consistent n s"
    and "\<And>a b e. estimate rule' f a b = Inr e \<Longrightarrow> length e = n"
    and "\<And>a b e. error_estimate rule' f a b = Inr e \<Longrightarrow> length e = n"
  shows "consistent n s' \<and> st_subdivisions s' = st_subdivisions s + 1"
proof -
  from assms(1) obtain region_k regions s'' where
    p: "heappop CubatureRegion_lt (st_regions s) = Inr (region_k, regions)"
    and rf: "refine_subregions rule' f (subregion_coordinates (region_a region_k) (region_b region_k))
               (s\<lparr>st_est := map2 (-) (st_est s) (region_estimate region_k),
                  st_err := map2 (-) (st_err s) (region_error region_k),
                  st_regions := regions\<rparr>) = Inr s''"
    and s': "s' = s''\<lparr>st_subdivisions := st_subdivisions s'' + 1\<rparr>"
    by (auto simp: subdivide_def Let_def split: sum.splits)
  have m: "mset (st_regions s) = add_mset region_k (mset regions)"
    using heappop_mset [OF p] .
  then have set: "set (st_regions s) = insert region_k (set regions)"
    by (metis set_mset_add_mset_insert set_mset_mset)
  then have lk: "length (region_estimate region_k) = n" "length (region_error region_k) = n"
    using assms(2) by (auto simp: consistent_def)
  have "consistent n (s\<lparr>st_est := map2 (-) (st_est s) (region_estimate region_k),
                  st_err := map2 (-) (st_err s) (region_error region_k),
                  st_regions := regions\<rparr>)"
    using assms(2) set lk
      sum_over_regions_remove [OF m, of region_estimate n]
      sum_over_regions_remove [OF m, of region_error n]
    by (simp add: consistent_def)
  from refine_subregions_consistent [OF rf this assms(3,4)]
  show ?thesis by (simp add: s' consistent_def)
qed

lemma state_at_test_consistent:
  assumes "state_at_test rule' f rtol atol max_subdivisions s0 k = Some s" "consistent n s0"
    and "\<And>a b e. estimate rule' f a b = Inr e \<Longrightarrow> length e = n"
    and "\<And>a b e. error_estimate rule' f a b = Inr e \<Longrightarrow> length e = n"
  shows "consistent n s"
  using assms(1)
proof (induction k arbitrary: s)
  case 0
  with assms(2) show ?case by simp
next
  case (Suc k)
  from Suc.prems obtain t where t: "state_at_test rule' f rtol atol max_subdivisions s0 k = Some t"
    and sub: "subdivide rule' f t = Inr s"
    by (auto split: option.splits if_splits sum.splits)
  from subdivide_consistent [OF sub Suc.IH [OF t] assms(3,4)] show ?case by simp
qed

lemma cubature_loop_consistent_aux:
  assumes "cubature_loop rule' f rtol atol max_subdivisions s0 = Some y"
  shows "(\<forall>a b e. estimate rule' f a b = Inr e \<longrightarrow> length e = n) \<longrightarrow>
     (\<forall>a b e. error_estimate rule' f a b = Inr e \<longrightarrow> length e = n) \<longrightarrow>
     consistent n s0 \<longrightarrow> (\<forall>s flag. y = Inr (s, flag) \<longrightarrow> consistent n s)"
proof (rule cubature_loop.raw_induct
    [where P = "\<lambda>rule' f rtol atol max_subdivisions s0 y.
       (\<forall>a b e. estimate rule' f a b = Inr e \<longrightarrow> length e = n) \<longrightarrow>
       (\<forall>a b e. error_estimate rule' f a b = Inr e \<longrightarrow> length e = n) \<longrightarrow>
       consistent n s0 \<longrightarrow> (\<forall>s flag. y = Inr (s, flag) \<longrightarrow> consistent n s)", OF _ assms])
  fix loop :: "'a Cubature \<Rightarrow> 'a \<Rightarrow> real \<Rightarrow> real \<Rightarrow> int option \<Rightarrow> loop_state \<Rightarrow> (exn + loop_state \<times> bool) option"
  fix rule' f rtol atol max_subdivisions s y
  assume IH: "\<And>rule' f rtol atol max_subdivisions s y.
      loop rule' f rtol atol max_subdivisions s = Some y \<Longrightarrow>
      (\<forall>a b e. estimate rule' f a b = Inr e \<longrightarrow> length e = n) \<longrightarrow>
      (\<forall>a b e. error_estimate rule' f a b = Inr e \<longrightarrow> length e = n) \<longrightarrow>
      consistent n s \<longrightarrow> (\<forall>t flag. y = Inr (t, flag) \<longrightarrow> consistent n t)"
    and body: "(if tolerance_exceeded rtol atol (st_est s) (st_err s)
         then case subdivide rule' f s of
                Inl e \<Rightarrow> Some (Inl e)
              | Inr s' \<Rightarrow>
                  if budget_reached (st_subdivisions s') max_subdivisions
                  then Some (Inr (s', False))
                  else loop rule' f rtol atol max_subdivisions s'
         else Some (Inr (s, True))) = Some y"
  show "(\<forall>a b e. estimate rule' f a b = Inr e \<longrightarrow> length e = n) \<longrightarrow>
       (\<forall>a b e. error_estimate rule' f a b = Inr e \<longrightarrow> length e = n) \<longrightarrow>
       consistent n s \<longrightarrow> (\<forall>t flag. y = Inr (t, flag) \<longrightarrow> consistent n t)"
  proof (intro impI allI)
    fix t flag
    assume sh1: "\<forall>a b e. estimate rule' f a b = Inr e \<longrightarrow> length e = n"
      and sh2: "\<forall>a b e. error_estimate rule' f a b = Inr e \<longrightarrow> length e = n"
      and c: "consistent n s" and y: "y = Inr (t, flag)"
    show "consistent n t"
    proof (cases "tolerance_exceeded rtol atol (st_est s) (st_err s)")
      case False
      with body y c show ?thesis by simp
    next
      case exceeded: True
      with body y obtain s' where sub: "subdivide rule' f s = Inr s'"
        by (auto split: sum.splits)
      have c': "consistent n s'"
        using subdivide_consistent [OF sub c] sh1 sh2 by blast
      show ?thesis
      proof (cases "budget_reached (st_subdivisions s') max_subdivisions")
        case True
        with body exceeded sub y c' show ?thesis by simp
      next
        case False
        with body exceeded sub
        have l: "loop rule' f rtol atol max_subdivisions s' = Some y" by simp
        show ?thesis using IH [OF l] sh1 sh2 c' y by blast
      qed
    qed
  qed
qed

lemma cubature_loop_consistent:
  assumes "cubature_loop rule' f rtol atol max_subdivisions s0 = Some (Inr (s, flag))" "consistent n s0"
    and "\<And>a b e. estimate rule' f a b = Inr e \<Longrightarrow> length e = n"
    and "\<And>a b e. error_estimate rule' f a b = Inr e \<Longrightarrow> length e = n"
  shows "consistent n s"
  using cubature_loop_consistent_aux [OF assms(1), of n] assms(2-4) by blast

lemma initial_state_consistent:
  assumes "length est = n" "length err = n"
  shows "consistent n \<lparr>st_est = est, st_err = err,
           st_regions = [\<lparr>region_estimate = est, region_error = err, region_a = a, region_b = b\<rparr>],
           st_subdivisions = 0\<rparr>"
proof -
  have "sum_over_regions n field [r] = field r" if "length (field r) = n" for field r
    using that by (intro nth_equalityI) (simp_all add: sum_over_regions_def)
  from this [of region_estimate] this [of region_error] assms
  show ?thesis by (simp add: consistent_def)
qed

text \<open>
  The loop started in \<open>s0\<close> continues from every state \<open>state_at_test\<close> gives: these are the
  states in which the loop evaluates its condition.
\<close>

lemma cubature_loop_passes:
  "state_at_test rule' f rtol atol max_subdivisions s0 k = Some s \<Longrightarrow>
   cubature_loop rule' f rtol atol max_subdivisions s0 = cubature_loop rule' f rtol atol max_subdivisions s"
proof (induction k arbitrary: s)
  case 0
  then show ?case by simp
next
  case (Suc k)
  from Suc.prems obtain t where t: "state_at_test rule' f rtol atol max_subdivisions s0 k = Some t"
    and ex: "tolerance_exceeded rtol atol (st_est t) (st_err t)"
    and sub: "subdivide rule' f t = Inr s"
    and nb: "\<not> budget_reached (st_subdivisions s) max_subdivisions"
    by (auto split: option.splits if_splits sum.splits)
  have "cubature_loop rule' f rtol atol max_subdivisions t = cubature_loop rule' f rtol atol max_subdivisions s"
    using ex sub nb by (subst cubature_loop.simps) simp
  with Suc.IH [OF t] show ?case by simp
qed

text \<open>
  C3. Whenever the loop of \<open>cubature\<close> evaluates its convergence test, and in the result it
  returns, the global estimate is the elementwise sum of the estimates of the regions in the
  working set, and the global error the elementwise sum of their errors (exact arithmetic;
  the rule returns arrays of one shape, of \<open>n\<close> components).
\<close>

theorem cubature_accumulator_invariant:
  assumes e: "estimate rule' f a b = Inr est" and r: "error_estimate rule' f a b = Inr err"
    and sh1: "\<forall>a b e. estimate rule' f a b = Inr e \<longrightarrow> length e = n"
    and sh2: "\<forall>a b e. error_estimate rule' f a b = Inr e \<longrightarrow> length e = n"
  shows "(\<forall>k s. state_at_test rule' f rtol atol max_subdivisions
                  \<lparr>st_est = est, st_err = err,
                   st_regions = [\<lparr>region_estimate = est, region_error = err,
                                  region_a = a, region_b = b\<rparr>],
                   st_subdivisions = 0\<rparr> k = Some s \<longrightarrow>
            st_est s = sum_over_regions n region_estimate (st_regions s) \<and>
            st_err s = sum_over_regions n region_error (st_regions s)) \<and>
         (\<forall>res. cubature f (Array1 a) (Array1 b) rule' rtol atol max_subdivisions = Some (Inr res) \<longrightarrow>
            res_estimate res = sum_over_regions n region_estimate (res_regions res) \<and>
            res_error res = sum_over_regions n region_error (res_regions res))"
proof -
  let ?s0 = "\<lparr>st_est = est, st_err = err,
              st_regions = [\<lparr>region_estimate = est, region_error = err, region_a = a, region_b = b\<rparr>],
              st_subdivisions = 0\<rparr>"
  have s1: "length e = n" if "estimate rule' f a b = Inr e" for a b e using sh1 that by blast
  have s2: "length e = n" if "error_estimate rule' f a b = Inr e" for a b e using sh2 that by blast
  have c0: "consistent n ?s0"
    using s1 [OF e] s2 [OF r] by (rule initial_state_consistent)
  have "consistent n s" if "state_at_test rule' f rtol atol max_subdivisions ?s0 k = Some s" for k s
    using that c0 s1 s2 by (rule state_at_test_consistent)
  then have at_test: "st_est s = sum_over_regions n region_estimate (st_regions s) \<and>
            st_err s = sum_over_regions n region_error (st_regions s)"
    if "state_at_test rule' f rtol atol max_subdivisions ?s0 k = Some s" for k s
    using that by (simp add: consistent_def)
  have returned: "res_estimate res = sum_over_regions n region_estimate (res_regions res) \<and>
            res_error res = sum_over_regions n region_error (res_regions res)"
    if res: "cubature f (Array1 a) (Array1 b) rule' rtol atol max_subdivisions = Some (Inr res)" for res
  proof -
    from res e r obtain s flag where
      l: "cubature_loop rule' f rtol atol max_subdivisions ?s0 = Some (Inr (s, flag))"
      and res_eq: "res_estimate res = st_est s" "res_error res = st_err s" "res_regions res = st_regions s"
      by (auto simp: cubature_def split: option.splits sum.splits)
    have "consistent n s"
      using l c0 s1 s2 by (rule cubature_loop_consistent)
    then show ?thesis by (simp add: res_eq consistent_def)
  qed
  from at_test returned show ?thesis by blast
qed

theorem cubature_accumulator_invariant_witness:
  "state_at_test
     (ErrorFromDifference_as_Cubature
        (ErrorFromDifference_init \<lparr>rule = ([[- 1, 0, 1]], [1 / 3, 4 / 3, 1 / 3])\<rparr>
                                  \<lparr>rule = ([[- 1, 1]], [1, 1])\<rparr>))
     (\<lambda>x. [map (\<lambda>t. t ^ 4) (hd x)]) 0 (1 / 10) (Some 10)
     \<lparr>st_est = [5 / 24], st_err = [7 / 24],
      st_regions = [\<lparr>region_estimate = [5 / 24], region_error = [7 / 24],
                     region_a = [0], region_b = [1]\<rparr>],
      st_subdivisions = 0\<rparr> 1
   = Some \<lparr>st_est = [77 / 384], st_err = [31 / 384],
           st_regions =
             [\<lparr>region_estimate = [149 / 768], region_error = [55 / 768],
                 region_a = [1 / 2], region_b = [1]\<rparr>,
              \<lparr>region_estimate = [5 / 768], region_error = [7 / 768],
                 region_a = [0], region_b = [1 / 2]\<rparr>],
           st_subdivisions = 1\<rparr> \<and>
   [77 / 384] = sum_over_regions 1 region_estimate
             [\<lparr>region_estimate = [149 / 768], region_error = [55 / 768],
                 region_a = [1 / 2], region_b = [1]\<rparr>,
              \<lparr>region_estimate = [5 / 768], region_error = [7 / 768],
                 region_a = [0], region_b = [1 / 2]\<rparr>] \<and>
   [31 / 384] = sum_over_regions 1 region_error
             [\<lparr>region_estimate = [149 / 768], region_error = [55 / 768],
                 region_a = [1 / 2], region_b = [1]\<rparr>,
              \<lparr>region_estimate = [5 / 768], region_error = [7 / 768],
                 region_a = [0], region_b = [1 / 2]\<rparr>]"
proof -
  let ?f = "\<lambda>x :: real list list. [map (\<lambda>t. t ^ 4) (hd x)]"
  let ?r = "ErrorFromDifference_as_Cubature
        (ErrorFromDifference_init \<lparr>rule = ([[- 1, 0, 1]], [1 / 3, 4 / 3, 1 / 3])\<rparr>
                                  \<lparr>rule = ([[- 1, 1]], [1, 1])\<rparr>)"
  let ?s1 = "\<lparr>st_est = [77 / 384], st_err = [31 / 384],
           st_regions =
             [\<lparr>region_estimate = [149 / 768], region_error = [55 / 768],
                 region_a = [1 / 2], region_b = [1]\<rparr>,
              \<lparr>region_estimate = [5 / 768], region_error = [7 / 768],
                 region_a = [0], region_b = [1 / 2]\<rparr>],
           st_subdivisions = 1\<rparr>"
  have e: "estimate ?r ?f [0] [1] = Inr [5 / 24]"
    by code_simp
  have r: "error_estimate ?r ?f [0] [1] = Inr [7 / 24]"
    by code_simp
  have sh1: "\<forall>a b e. estimate ?r ?f a b = Inr e \<longrightarrow> length e = 1"
    by (auto simp: ErrorFromDifference_as_Cubature_def ErrorFromDifference_init_def
          FixedCubature_estimate_def apply_rule_def Let_def split: if_splits)
  have sh2: "\<forall>a b e. error_estimate ?r ?f a b = Inr e \<longrightarrow> length e = 1"
    by (auto simp: ErrorFromDifference_as_Cubature_def ErrorFromDifference_init_def
          ErrorFromDifference_error_estimate_def np_concat_last_def apply_rule_def Let_def
          split: if_splits)
  have t: "state_at_test ?r ?f 0 (1 / 10) (Some 10)
     \<lparr>st_est = [5 / 24], st_err = [7 / 24],
      st_regions = [\<lparr>region_estimate = [5 / 24], region_error = [7 / 24],
                     region_a = [0], region_b = [1]\<rparr>],
      st_subdivisions = 0\<rparr> 1 = Some ?s1"
    by code_simp
  from cubature_accumulator_invariant [OF e r sh1 sh2, of 0 "1 / 10" "Some 10"] t
  have "st_est ?s1 = sum_over_regions 1 region_estimate (st_regions ?s1) \<and>
        st_err ?s1 = sum_over_regions 1 region_error (st_regions ?s1)"
    by blast
  with t show ?thesis by simp
qed


text \<open>
  Each pass through the loop body increments the counter by one. With a finite
  \<open>max_subdivisions\<close> the loop, and so \<open>cubature\<close>, returns; and when \<open>max_subdivisions \<ge> 1\<close>
  and \<open>cubature\<close> returns without success, the counter equals \<open>max_subdivisions\<close>.
\<close>

lemma refine_subregions_subdivisions:
  "refine_subregions rule' f subs s = Inr s' \<Longrightarrow> st_subdivisions s' = st_subdivisions s"
proof (induction subs arbitrary: s)
  case Nil
  then show ?case by simp
next
  case (Cons ab subs)
  obtain a_sub b_sub where ab: "ab = (a_sub, b_sub)" by (cases ab)
  from Cons.prems obtain t where "refine_subregions rule' f subs t = Inr s'"
    and "st_subdivisions t = st_subdivisions s"
    by (auto simp: ab Let_def split: sum.splits)
  with Cons.IH show ?case by simp
qed

lemma subdivide_subdivisions:
  assumes "subdivide rule' f s = Inr s'"
  shows "st_subdivisions s' = st_subdivisions s + 1"
proof (cases "heappop CubatureRegion_lt (st_regions s)")
  case (Inl e)
  with assms show ?thesis by (simp add: subdivide_def)
next
  case (Inr p)
  obtain t t' where p: "p = (t, t')" by (cases p)
  let ?s1 = "s\<lparr>st_est := map2 (-) (st_est s) (region_estimate t),
             st_err := map2 (-) (st_err s) (region_error t), st_regions := t'\<rparr>"
  show ?thesis
  proof (cases "refine_subregions rule' f (subregion_coordinates (region_a t) (region_b t)) ?s1")
    case Inl
    with assms Inr p show ?thesis by (simp add: subdivide_def Let_def)
  next
    case r: (Inr s'')
    with assms Inr p have "s' = s''\<lparr>st_subdivisions := st_subdivisions s'' + 1\<rparr>"
      by (simp add: subdivide_def Let_def)
    with refine_subregions_subdivisions [OF r] show ?thesis by simp
  qed
qed

lemma cubature_loop_terminates:
  "\<exists>y. cubature_loop rule' f rtol atol (Some m) s = Some y"
proof (induction "nat (m - int (st_subdivisions s))" arbitrary: s rule: less_induct)
  case less
  show ?case
  proof (cases "tolerance_exceeded rtol atol (st_est s) (st_err s)")
    case False
    then show ?thesis by (subst cubature_loop.simps) simp
  next
    case ex: True
    show ?thesis
    proof (cases "subdivide rule' f s")
      case (Inl e)
      with ex show ?thesis by (subst cubature_loop.simps) simp
    next
      case (Inr s')
      show ?thesis
      proof (cases "budget_reached (st_subdivisions s') (Some m)")
        case True
        with ex Inr show ?thesis by (subst cubature_loop.simps) simp
      next
        case False
        then have "nat (m - int (st_subdivisions s')) < nat (m - int (st_subdivisions s))"
          using subdivide_subdivisions [OF Inr] by (simp add: budget_reached_def)
        from less [OF this] obtain y where "cubature_loop rule' f rtol atol (Some m) s' = Some y" ..
        with ex Inr False show ?thesis by (subst cubature_loop.simps) simp
      qed
    qed
  qed
qed

lemma cubature_terminates:
  "\<exists>y. cubature f a b rule' rtol atol (Some m) = Some y"
proof -
  have "\<exists>y. (case cubature_loop rule' f rtol atol (Some m) s of
               None \<Rightarrow> None
             | Some (Inl e) \<Rightarrow> Some (Inl e)
             | Some (Inr (t, success)) \<Rightarrow> Some (Inr (g t success))) = Some y" for s g
    using cubature_loop_terminates [of rule' f rtol atol m s]
    by (auto split: option.splits sum.splits)
  then show ?thesis
    unfolding cubature_def
    by (auto split: array_like.splits sum.splits prod.splits)
qed

lemma cubature_loop_budget_aux:
  assumes "cubature_loop rule' f rtol atol max_subdivisions s0 = Some y"
  shows "\<forall>m. max_subdivisions = Some m \<longrightarrow> int (st_subdivisions s0) < m \<longrightarrow>
           (\<forall>s. y = Inr (s, False) \<longrightarrow> int (st_subdivisions s) = m)"
proof (rule cubature_loop.raw_induct
    [where P = "\<lambda>rule' f rtol atol max_subdivisions s0 y.
       \<forall>m. max_subdivisions = Some m \<longrightarrow> int (st_subdivisions s0) < m \<longrightarrow>
           (\<forall>s. y = Inr (s, False) \<longrightarrow> int (st_subdivisions s) = m)", OF _ assms])
  fix loop :: "'a Cubature \<Rightarrow> 'a \<Rightarrow> real \<Rightarrow> real \<Rightarrow> int option \<Rightarrow> loop_state \<Rightarrow> (exn + loop_state \<times> bool) option"
  fix rule' f rtol atol max_subdivisions s y
  assume IH: "\<And>rule' f rtol atol max_subdivisions s y.
      loop rule' f rtol atol max_subdivisions s = Some y \<Longrightarrow>
      \<forall>m. max_subdivisions = Some m \<longrightarrow> int (st_subdivisions s) < m \<longrightarrow>
           (\<forall>t. y = Inr (t, False) \<longrightarrow> int (st_subdivisions t) = m)"
    and body: "(if tolerance_exceeded rtol atol (st_est s) (st_err s)
         then case subdivide rule' f s of
                Inl e \<Rightarrow> Some (Inl e)
              | Inr s' \<Rightarrow>
                  if budget_reached (st_subdivisions s') max_subdivisions
                  then Some (Inr (s', False))
                  else loop rule' f rtol atol max_subdivisions s'
         else Some (Inr (s, True))) = Some y"
  show "\<forall>m. max_subdivisions = Some m \<longrightarrow> int (st_subdivisions s) < m \<longrightarrow>
           (\<forall>t. y = Inr (t, False) \<longrightarrow> int (st_subdivisions t) = m)"
  proof (intro allI impI)
    fix m t
    assume m: "max_subdivisions = Some m" and lt: "int (st_subdivisions s) < m"
      and y: "y = Inr (t, False)"
    from body y have ex: "tolerance_exceeded rtol atol (st_est s) (st_err s)"
      by (auto split: if_splits)
    with body y obtain s' where sub: "subdivide rule' f s = Inr s'"
      by (auto split: sum.splits)
    note inc = subdivide_subdivisions [OF sub]
    show "int (st_subdivisions t) = m"
    proof (cases "budget_reached (st_subdivisions s') max_subdivisions")
      case True
      with body ex sub y have "t = s'" by simp
      with True inc lt m show ?thesis by (simp add: budget_reached_def)
    next
      case False
      with body ex sub have l: "loop rule' f rtol atol max_subdivisions s' = Some y" by simp
      from False m have "int (st_subdivisions s') < m" by (simp add: budget_reached_def)
      with IH [OF l] m y show ?thesis by blast
    qed
  qed
qed

lemma cubature_result_cases:
  assumes "cubature f a b rule' rtol atol max_subdivisions = Some (Inr res)"
  shows "\<exists>s0 s flag. st_subdivisions s0 = 0 \<and>
           cubature_loop rule' f rtol atol max_subdivisions s0 = Some (Inr (s, flag)) \<and>
           res_success res = flag \<and> res_subdivisions res = st_subdivisions s \<and>
           res_status res = (if flag then ''converged'' else ''not_converged'')"
proof (cases a)
  case (Array1 av)
  show ?thesis
  proof (cases b)
    case b: (Array1 bv)
    from assms Array1 b obtain est where e: "estimate rule' f av bv = Inr est"
      by (auto simp: cubature_def split: sum.splits)
    from assms Array1 b e obtain err where r: "error_estimate rule' f av bv = Inr err"
      by (auto simp: cubature_def split: sum.splits)
    let ?s0 = "\<lparr>st_est = est, st_err = err,
                st_regions = [\<lparr>region_estimate = est, region_error = err,
                               region_a = av, region_b = bv\<rparr>],
                st_subdivisions = 0\<rparr>"
    from assms Array1 b e r obtain s flag where
      l: "cubature_loop rule' f rtol atol max_subdivisions ?s0 = Some (Inr (s, flag))"
      by (auto simp: cubature_def split: option.splits sum.splits)
    with assms Array1 b e r
    have "res_success res = flag \<and> res_subdivisions res = st_subdivisions s \<and>
           res_status res = (if flag then ''converged'' else ''not_converged'')"
      by (auto simp: cubature_def)
    with l show ?thesis by (intro exI [of _ ?s0] exI [of _ s] exI [of _ flag]) simp
  qed (use assms Array1 in \<open>simp_all add: cubature_def\<close>)
qed (use assms in \<open>simp_all add: cubature_def\<close>)

lemma cubature_budget_exact:
  assumes "cubature f a b rule' rtol atol (Some m) = Some (Inr res)" "1 \<le> m" "\<not> res_success res"
  shows "int (res_subdivisions res) = m \<and> res_status res = ''not_converged''"
proof -
  from cubature_result_cases [OF assms(1)] obtain s0 s flag where s0: "st_subdivisions s0 = 0"
    and l: "cubature_loop rule' f rtol atol (Some m) s0 = Some (Inr (s, flag))"
    and res: "res_success res = flag" "res_subdivisions res = st_subdivisions s"
      "res_status res = (if flag then ''converged'' else ''not_converged'')"
    by blast
  from assms(3) res have "flag = False" by simp
  with cubature_loop_budget_aux [OF l] s0 assms(2) res show ?thesis by simp
qed

text \<open>
  C4. With \<open>max_subdivisions = 0\<close> and an initial estimate that does not meet the tolerance,
  \<open>cubature\<close> subdivides once and returns \<open>not_converged\<close> with \<open>subdivisions = 1\<close>: the
  budget is tested only after the counter is incremented. The rule is Simpson's rule with
  the trapezoidal rule as lower rule, the integrand \<open>x\<^sup>4\<close> on \<open>[0, 1]\<close>.
\<close>

theorem cubature_zero_budget:
  "cubature (\<lambda>x. [map (\<lambda>t. t ^ 4) (hd x)]) (Array1 [0]) (Array1 [1])
     (ErrorFromDifference_as_Cubature
        (ErrorFromDifference_init \<lparr>rule = ([[- 1, 0, 1]], [1 / 3, 4 / 3, 1 / 3])\<rparr>
                                  \<lparr>rule = ([[- 1, 1]], [1, 1])\<rparr>))
     0 (1 / 10) (Some 0)
   = Some (Inr \<lparr>res_estimate = [77 / 384], res_error = [31 / 384],
          res_success = False, res_status = ''not_converged'',
          res_regions =
            [\<lparr>region_estimate = [149 / 768], region_error = [55 / 768],
                region_a = [1 / 2], region_b = [1]\<rparr>,
             \<lparr>region_estimate = [5 / 768], region_error = [7 / 768],
                region_a = [0], region_b = [1 / 2]\<rparr>],
          res_subdivisions = 1, res_atol = 1 / 10, res_rtol = 0\<rparr>)"
  by code_simp





text \<open>
  C10. If the estimate and the error over the full region meet the tolerance, \<open>cubature\<close>
  returns them at once: no subdivision, \<open>success\<close>, status \<open>converged\<close>, and the one region
  \<open>[a, b]\<close> with that estimate and error.
\<close>

theorem cubature_converged_at_once:
  assumes "estimate rule' f a b = Inr est" and "error_estimate rule' f a b = Inr err"
    and "\<not> tolerance_exceeded rtol atol est err"
  shows "cubature f (Array1 a) (Array1 b) rule' rtol atol max_subdivisions
     = Some (Inr \<lparr>res_estimate = est, res_error = err, res_success = True,
                  res_status = ''converged'',
                  res_regions = [\<lparr>region_estimate = est, region_error = err,
                                   region_a = a, region_b = b\<rparr>],
                  res_subdivisions = 0, res_atol = atol, res_rtol = rtol\<rparr>)"
  using assms by (simp add: cubature_def cubature_loop.simps)

theorem cubature_converged_at_once_witness:
  "cubature (\<lambda>x. [map (\<lambda>t. t ^ 4) (hd x)]) (Array1 [0]) (Array1 [1])
     (ErrorFromDifference_as_Cubature
        (ErrorFromDifference_init \<lparr>rule = ([[- 1, 0, 1]], [1 / 3, 4 / 3, 1 / 3])\<rparr>
                                  \<lparr>rule = ([[- 1, 1]], [1, 1])\<rparr>))
     0 (1 / 2) (Some 10000)
   = Some (Inr \<lparr>res_estimate = [5 / 24], res_error = [7 / 24], res_success = True,
                res_status = ''converged'',
                res_regions = [\<lparr>region_estimate = [5 / 24], region_error = [7 / 24],
                                 region_a = [0], region_b = [1]\<rparr>],
                res_subdivisions = 0, res_atol = 1 / 2, res_rtol = 0\<rparr>)"
proof -
  let ?f = "\<lambda>x :: real list list. [map (\<lambda>t. t ^ 4) (hd x)]"
  let ?r = "ErrorFromDifference_as_Cubature
        (ErrorFromDifference_init \<lparr>rule = ([[- 1, 0, 1]], [1 / 3, 4 / 3, 1 / 3])\<rparr>
                                  \<lparr>rule = ([[- 1, 1]], [1, 1])\<rparr>)"
  have e: "estimate ?r ?f [0] [1] = Inr [5 / 24]"
    by code_simp
  have r: "error_estimate ?r ?f [0] [1] = Inr [7 / 24]"
    by code_simp
  have t: "\<not> tolerance_exceeded 0 (1 / 2) [5 / 24] [7 / 24]"
    by (simp add: tolerance_exceeded_def)
  from cubature_converged_at_once [OF e r t] show ?thesis .
qed

end
